theory Spec2Isabelle
  imports Main "HOL-Library.Multiset" "HOL-Library.Char_ord" "HOL-Library.List_Lexorder"
begin

section \<open>Errors\<close>

text \<open>
  The C++ code has three ways of not returning normally. \<open>init\<close> throws
  \<open>std::invalid_argument\<close>; \<open>unordered_map::at\<close> throws \<open>std::out_of_range\<close> on a
  missing key; and reading a \<open>std::string\<close> past its end, or calling \<open>back()\<close> on an
  empty one, has undefined behaviour. Each is a value of the model.
\<close>

datatype error = invalid_argument | out_of_range | undefined_behaviour

section \<open>ArgParser (ArgParser.hpp, ArgParser.cpp)\<close>

text \<open>
  The six data members of the class. \<open>values\<close> is a reserved word of Isabelle, so
  that member is called \<open>values_tbl\<close>.
\<close>

record ArgParser =
  keys_trans :: "string \<rightharpoonup> string"
  values_tbl :: "string \<rightharpoonup> string"
  keys_found :: "string \<rightharpoonup> bool"
  key_order :: "string list"
  short_keys :: "string set"
  long_keys :: "string set"

text \<open>\<open>unordered_map::insert\<close>: stores the pair only when the key is absent.\<close>

definition map_insert :: "('k \<rightharpoonup> 'v) \<Rightarrow> 'k \<Rightarrow> 'v \<Rightarrow> ('k \<rightharpoonup> 'v)" where
  "map_insert m k v = (case m k of None \<Rightarrow> m(k \<mapsto> v) | Some _ \<Rightarrow> m)"

text \<open>The members as \<open>init\<close> resets them before its loop.\<close>

definition empty_parser :: ArgParser where
  "empty_parser =
     \<lparr>keys_trans = Map.empty, values_tbl = Map.empty, keys_found = Map.empty,
      key_order = [], short_keys = {}, long_keys = {}\<rparr>"

text \<open>One iteration of the loop of \<open>init\<close>, for the pair at index \<open>i\<close>.\<close>

definition init_step :: "ArgParser \<Rightarrow> string \<times> string \<Rightarrow> ArgParser" where
  "init_step P tk =
     (let short_token = fst tk; long_token = snd tk;
          P1 = (if long_token \<noteq> [] \<and> short_token \<noteq> []
                then P\<lparr>keys_trans := map_insert (keys_trans P) long_token short_token,
                       long_keys := insert long_token (long_keys P)\<rparr>
                else P)
      in if short_token \<noteq> []
         then P1\<lparr>values_tbl := map_insert (values_tbl P1) short_token [],
                 keys_found := map_insert (keys_found P1) short_token False,
                 key_order := key_order P1 @ [short_token],
                 short_keys := insert short_token (short_keys P1)\<rparr>
         else if long_token \<noteq> []
         then P1\<lparr>values_tbl := map_insert (values_tbl P1) long_token [],
                 keys_found := map_insert (keys_found P1) long_token False,
                 key_order := key_order P1 @ [long_token],
                 long_keys := insert long_token (long_keys P1)\<rparr>
         else P1)"

definition init :: "string list \<Rightarrow> string list \<Rightarrow> error + ArgParser" where
  "init tokens_short tokens_long =
     (if length tokens_short \<noteq> length tokens_long then Inl invalid_argument
      else Inr (foldl init_step empty_parser (zip tokens_short tokens_long)))"

text \<open>The three constructors.\<close>

definition ArgParser_pairs :: "(string \<times> string) list \<Rightarrow> error + ArgParser" where
  "ArgParser_pairs tokens = init (map fst tokens) (map snd tokens)"

definition ArgParser_short :: "string list \<Rightarrow> error + ArgParser" where
  "ArgParser_short tokens_short = init tokens_short (replicate (length tokens_short) [])"

definition ArgParser_short_long :: "string list \<Rightarrow> string list \<Rightarrow> error + ArgParser" where
  "ArgParser_short_long tokens_short tokens_long = init tokens_short tokens_long"

text \<open>The alias step shared by \<open>found\<close>, \<open>get_value\<close> and \<open>parse\<close>:
  \<open>if (keys_trans.contains(key)) key = keys_trans.at(key)\<close>.\<close>

definition translate :: "ArgParser \<Rightarrow> string \<Rightarrow> string" where
  "translate P key = (case keys_trans P key of Some k \<Rightarrow> k | None \<Rightarrow> key)"

definition found :: "ArgParser \<Rightarrow> string \<Rightarrow> bool" where
  "found P token =
     (let key = translate P token
      in case keys_found P key of Some b \<Rightarrow> b | None \<Rightarrow> False)"

text \<open>\<open>get_value\<close> reads \<open>keys_found.at(key)\<close> without a \<open>contains\<close> test of that
  map, so a key with a value slot and no found slot throws.\<close>

definition get_value :: "ArgParser \<Rightarrow> string \<Rightarrow> error + string" where
  "get_value P token =
     (let key = translate P token
      in case values_tbl P key of
           None \<Rightarrow> Inr []
         | Some v \<Rightarrow> (case keys_found P key of
                        None \<Rightarrow> Inl out_of_range
                      | Some b \<Rightarrow> Inr (if b then v else [])))"

text \<open>\<open>add_token\<close> returns its \<open>bool\<close> and the updated object.\<close>

definition add_token :: "ArgParser \<Rightarrow> string \<Rightarrow> string \<Rightarrow> bool \<Rightarrow> bool \<Rightarrow> bool \<times> ArgParser" where
  "add_token P short_token long_token has_value positional =
     (if short_token = [] \<and> long_token = [] then (False, P)
      else
        let P1 = (if long_token \<noteq> [] \<and> short_token \<noteq> []
                  then P\<lparr>keys_trans := map_insert (keys_trans P) long_token short_token,
                         long_keys := insert long_token (long_keys P)\<rparr>
                  else P)
        in if short_token \<noteq> []
           then (True,
                 P1\<lparr>values_tbl := (if has_value then map_insert (values_tbl P1) short_token []
                                     else values_tbl P1),
                    keys_found := map_insert (keys_found P1) short_token False,
                    key_order := (if has_value \<and> positional then key_order P1 @ [short_token]
                                  else key_order P1),
                    short_keys := insert short_token (short_keys P1)\<rparr>)
           else (True,
                 P1\<lparr>values_tbl := (if has_value then map_insert (values_tbl P1) long_token []
                                     else values_tbl P1),
                    keys_found := map_insert (keys_found P1) long_token False,
                    key_order := (if has_value \<and> positional then key_order P1 @ [long_token]
                                  else key_order P1),
                    long_keys := insert long_token (long_keys P1)\<rparr>))"

text \<open>
  \<open>parse\<close>. The argument vector is the list \<open>argv\<close>, \<open>argc\<close> its length; the
  elements are C strings, so \<open>argv[i][0]\<close> of an empty argument is the terminating
  NUL, which is none of the characters tested. The first loop runs over
  \<open>argv[1..]\<close>; \<open>i < last_kwd\<close> says that a next argument exists, and \<open>++i\<close> skips it.
  \<open>extras\<close> is the deque, oldest element first.
\<close>

definition option_key :: "ArgParser \<Rightarrow> string \<Rightarrow> string" where
  "option_key P a =
     (let arg = (if hd a = CHR ''-'' \<and> tl a \<noteq> [] \<and> hd (tl a) = CHR ''-''
                 then (if drop 2 a \<in> long_keys P then drop 2 a else a)
                 else (if drop 1 a \<in> short_keys P then drop 1 a else a))
      in translate P arg)"

definition strip_quotes :: "string \<Rightarrow> string" where
  "strip_quotes a =
     (let arg = (if a \<noteq> [] \<and> hd a = CHR 0x22 then tl a else a)
      in if arg \<noteq> [] \<and> last arg = CHR 0x22 then butlast arg else arg)"

definition is_option :: "string \<Rightarrow> bool" where
  "is_option a = (a \<noteq> [] \<and> (hd a = CHR ''-'' \<or> hd a = CHR ''/''))"

fun scan_args :: "string list \<Rightarrow> ArgParser \<Rightarrow> string list \<Rightarrow> ArgParser \<times> string list" where
  "scan_args [] P extras = (P, extras)"
| "scan_args (a # rest) P extras =
     (if is_option a then
        (let arg = option_key P a in
         case keys_found P arg of
           Some _ \<Rightarrow>
             (let P1 = P\<lparr>keys_found := (keys_found P)(arg \<mapsto> True)\<rparr> in
              case rest of
                v # rest' \<Rightarrow>
                  (case values_tbl P1 arg of
                     Some _ \<Rightarrow> scan_args rest' (P1\<lparr>values_tbl := (values_tbl P1)(arg \<mapsto> v)\<rparr>) extras
                   | None \<Rightarrow> scan_args rest P1 extras)
              | [] \<Rightarrow> scan_args rest P1 extras)
         | None \<Rightarrow> scan_args rest P (extras @ [a]))
      else scan_args rest P (extras @ [strip_quotes a]))"

text \<open>The second loop: over \<open>key_order\<close>, leaving at the first key met with the
  deque empty. \<open>keys_found.at(it)\<close> throws on a key without a found slot.\<close>

fun backfill :: "string list \<Rightarrow> ArgParser \<Rightarrow> string list \<Rightarrow> error + ArgParser" where
  "backfill [] P extras = Inr P"
| "backfill (it # ks) P extras =
     (case extras of
        [] \<Rightarrow> Inr P
      | e # extras' \<Rightarrow>
          (case keys_found P it of
             None \<Rightarrow> Inl out_of_range
           | Some f \<Rightarrow>
               if \<not> f \<and> values_tbl P it \<noteq> None
               then backfill ks (P\<lparr>values_tbl := (values_tbl P)(it \<mapsto> e),
                                   keys_found := (keys_found P)(it \<mapsto> True)\<rparr>) extras'
               else backfill ks P extras))"

text \<open>\<open>parse\<close> returns \<open>true\<close> on every path that returns; the model returns the
  object as the call leaves it.\<close>

definition parse :: "ArgParser \<Rightarrow> string list \<Rightarrow> error + ArgParser" where
  "parse P argv =
     (case scan_args (drop 1 argv) P [] of
        (P1, extras) \<Rightarrow> backfill (key_order P1) P1 extras)"

text \<open>The parser that \<open>main\<close> builds before it calls \<open>parse\<close>.\<close>

definition main_tokens :: "(string \<times> string) list" where
  "main_tokens =
     [(''p'', ''path''), (''y'', ''year''), (''f'', ''zip-file''), (''i'', ''icd10-url''),
      (''z'', ''zip-url''), (''o'', ''order-file''), (''d'', ''decimal-file''),
      (''n'', ''non-decimal-file''), (''c'', ''combined-file''), (''u'', ''cms-url'')]"

definition main_parser :: "error + ArgParser" where
  "main_parser =
     (case ArgParser_pairs main_tokens of
        Inl e \<Rightarrow> Inl e
      | Inr P \<Rightarrow> Inr (snd (add_token (snd (add_token P ''?'' ''help'' False True))
                                     ''q'' ''quiet'' False True)))"

section \<open>The code file parser (\<open>parse_codes\<close>)\<close>

record ICDCode =
  code :: string
  dec_code :: string
  desc :: string

text \<open>A default-constructed \<open>ICDCode\<close>: three empty strings.\<close>

definition empty_code :: ICDCode where
  "empty_code = \<lparr>code = [], dec_code = [], desc = []\<rparr>"

text \<open>\<open>comp_icdcode\<close>: \<open>a.code < b.code\<close>, the lexicographic order of
  \<open>std::string\<close> on unsigned character values.\<close>

definition comp_icdcode :: "ICDCode \<Rightarrow> ICDCode \<Rightarrow> bool" where
  "comp_icdcode a b = (code a < code b)"

abbreviation NUL :: char where "NUL \<equiv> CHR 0x00"
abbreviation LF :: char where "LF \<equiv> CHR 0x0A"
abbreviation CR :: char where "CR \<equiv> CHR 0x0D"

text \<open>
  \<open>data[i]\<close> on the \<open>const std::string\<close>: the character when \<open>i < size()\<close>, the
  NUL when \<open>i = size()\<close>, and undefined behaviour beyond (\<open>None\<close>).
\<close>

definition at_str :: "string \<Rightarrow> nat \<Rightarrow> char option" where
  "at_str data i =
     (if i < length data then Some (data ! i)
      else if i = length data then Some NUL
      else None)"

text \<open>
  \<open>while (code.desc.back() == ' ') code.desc.pop_back();\<close>
  \<open>back()\<close> on an empty string is undefined behaviour (\<open>None\<close>); the loop reaches it
  when the description is empty or all spaces.
\<close>

function strip_trailing :: "string \<Rightarrow> string option" where
  "strip_trailing d =
     (if d = [] then None
      else if last d = CHR '' '' then strip_trailing (butlast d)
      else Some d)"
  by pat_completeness auto
termination
  by (relation "measure length") auto

declare strip_trailing.simps [simp del]

text \<open>
  The \<open>if / else if / else if\<close> chain at the top of the loop body. It is entered with
  \<open>i < data_len\<close>, so \<open>data[i]\<close> is a character of the string. The result is the new
  \<open>i\<close>, \<open>col\<close>, \<open>hipaa\<close> and \<open>code\<close>.
\<close>

definition columns ::
  "string \<Rightarrow> nat \<Rightarrow> nat \<Rightarrow> char \<Rightarrow> ICDCode \<Rightarrow> error + (nat \<times> nat \<times> char \<times> ICDCode)" where
  "columns data i col hipaa c =
     (if 6 \<le> col \<and> col < 14 then
        (if data ! i = CHR '' '' then Inr (i + (13 - col), col + (13 - col), hipaa, c)
         else Inr (i, col, hipaa,
                   c\<lparr>code := code c @ [data ! i],
                     dec_code := (if col = 9 then dec_code c @ [CHR ''.''] else dec_code c)
                                 @ [data ! i]\<rparr>))
      else if col = 14 then Inr (i + 62, col + 62, data ! i, c)
      else if hipaa = CHR ''1'' \<and> 77 \<le> col then
        (if data ! i = CR \<or> data ! i = LF then
           (case strip_trailing (desc c) of
              None \<Rightarrow> Inl undefined_behaviour
            | Some d \<Rightarrow> Inr (i, col, hipaa, c\<lparr>desc := d\<rparr>))
         else Inr (i, col, hipaa, c\<lparr>desc := desc c @ [data ! i]\<rparr>))
      else Inr (i, col, hipaa, c))"

text \<open>
  The line-end test at the bottom of the body. It reads \<open>data[i]\<close> with the \<open>i\<close> that
  the chain above may have moved, with no test against \<open>data_len\<close>. On a line end
  the record is pushed when \<open>hipaa\<close> is \<open>'1'\<close> and \<open>code\<close> is reset; \<open>hipaa\<close> is not.
\<close>

definition line_end ::
  "string \<Rightarrow> nat \<Rightarrow> nat \<Rightarrow> char \<Rightarrow> ICDCode \<Rightarrow> ICDCode list \<Rightarrow>
     error + (nat \<times> nat \<times> char \<times> ICDCode \<times> ICDCode list)" where
  "line_end data i col hipaa c codes =
     (case at_str data i of
        None \<Rightarrow> Inl undefined_behaviour
      | Some ch \<Rightarrow>
          if ch = CR \<or> ch = LF then
            (let i1 = (if ch = CR \<and> at_str data (i + 1) = Some LF then i + 1 else i)
             in Inr (i1 + 6, 5, hipaa, empty_code,
                     if hipaa = CHR ''1'' then codes @ [c] else codes))
          else Inr (i, col, hipaa, c, codes))"

text \<open>
  \<open>for (size_t i = 5; ++i < data_len; col++) { ... }\<close>: the arguments are the values
  of the variables before the \<open>++i\<close> of the loop test. The sizes are \<open>size_t\<close>; a
  string is far shorter than \<open>2^64\<close>, so the additions do not wrap and the indices
  are natural numbers.
\<close>

function parse_loop ::
  "string \<Rightarrow> nat \<Rightarrow> nat \<Rightarrow> char \<Rightarrow> ICDCode \<Rightarrow> ICDCode list \<Rightarrow> error + ICDCode list" where
  "parse_loop data i col hipaa c codes =
     (if \<not> (i + 1 < length data) then Inr codes
      else case columns data (i + 1) col hipaa c of
             Inl e \<Rightarrow> Inl e
           | Inr (i1, col1, hipaa1, c1) \<Rightarrow>
               (case line_end data i1 col1 hipaa1 c1 codes of
                  Inl e \<Rightarrow> Inl e
                | Inr (i2, col2, hipaa2, c2, codes2) \<Rightarrow>
                    parse_loop data i2 (col2 + 1) hipaa2 c2 codes2))"
  by pat_completeness auto
termination
proof (relation "measure (\<lambda>(data, i, col, hipaa, c, codes). length data - i)", goal_cases)
  case 1
  show ?case by simp
next
  case (2 data i col hipaa c codes x2 i1 y col1 z hipaa1 c1 x2a i2 ya col2 za hipaa2 yb c2 codes2)
  from 2 have "columns data (i + 1) col hipaa c = Inr (i1, col1, hipaa1, c1)" by simp
  then have "i + 1 \<le> i1"
    by (auto simp: columns_def split: if_splits option.splits)
  moreover from 2 have "line_end data i1 col1 hipaa1 c1 codes = Inr (i2, col2, hipaa2, c2, codes2)"
    by simp
  then have "i1 \<le> i2"
    by (auto simp: line_end_def Let_def split: if_splits option.splits)
  ultimately show ?case using 2 by simp
qed

declare parse_loop.simps [simp del]

text \<open>
  \<open>std::sort(first, last, comp)\<close> belongs to the C++ standard library, not to this
  program. The standard promises that the range ends up ordered by \<open>comp\<close> and holds
  the same elements, and says nothing on the relative order of elements that \<open>comp\<close>
  does not separate; which order a library gives them depends on its algorithm.
  \<open>std_sort comp xs ys\<close> holds when \<open>ys\<close> is a result that contract allows for the
  input \<open>xs\<close>. It decides the result where the codes are distinct, and is used for
  nothing else.
\<close>

definition std_sort :: "('a \<Rightarrow> 'a \<Rightarrow> bool) \<Rightarrow> 'a list \<Rightarrow> 'a list \<Rightarrow> bool" where
  "std_sort cmp xs ys = (mset ys = mset xs \<and> sorted_wrt (\<lambda>a b. \<not> cmp b a) ys)"

text \<open>The scan of \<open>parse_codes\<close>, before the sort: the records in file order,
  appended to what the vector \<open>codes\<close> held.\<close>

definition scan_codes :: "string \<Rightarrow> ICDCode list \<Rightarrow> error + ICDCode list" where
  "scan_codes data codes = parse_loop data 5 6 NUL empty_code codes"

text \<open>\<open>parse_codes data codes res\<close>: \<open>res\<close> is an outcome of the call, either the
  failure of the scan or a vector that the sort may leave.\<close>

definition parse_codes :: "string \<Rightarrow> ICDCode list \<Rightarrow> error + ICDCode list \<Rightarrow> bool" where
  "parse_codes data codes res =
     (case scan_codes data codes of
        Inl e \<Rightarrow> res = Inl e
      | Inr cs \<Rightarrow> (case res of Inl _ \<Rightarrow> False | Inr ys \<Rightarrow> std_sort comp_icdcode cs ys))"

section \<open>The generator (\<open>gen_go_file\<close>, \<open>gen_files\<close>)\<close>

text \<open>
  \<open>strftime\<close> is the C library's and depends on the locale, so \<open>gen_go_file\<close> takes
  it as a parameter: \<open>strftime max fmt timestamp\<close> is the text that the call writes,
  without its terminating NUL. \<open>c_buffer n s\<close> is the array \<open>char part[n] = ""\<close>
  after the call: the text and NULs up to the size \<open>n\<close>; a text that does not fit
  makes \<open>strftime\<close> return \<open>0\<close> and the array is taken as left at zero.
  \<open>c_str\<close> reads an array as a C string, up to the first NUL.
\<close>

definition c_buffer :: "nat \<Rightarrow> string \<Rightarrow> string" where
  "c_buffer n s = (if length s < n then s @ replicate (n - length s) NUL else replicate n NUL)"

definition c_str :: "string \<Rightarrow> string" where
  "c_str buf = takeWhile (\<lambda>ch. ch \<noteq> NUL) buf"

abbreviation DQ :: char where "DQ \<equiv> CHR 0x22"

text \<open>The three tests of the bit mask: \<open>bitmask & 1\<close> (decimal file),
  \<open>bitmask & 2\<close> (ending newlines), \<open>bitmask & 4\<close> (header).\<close>

definition mask_decimal :: "nat \<Rightarrow> bool" where
  "mask_decimal bitmask = (and bitmask 1 \<noteq> 0)"

definition mask_footer :: "nat \<Rightarrow> bool" where
  "mask_footer bitmask = (and bitmask 2 \<noteq> 0)"

definition mask_header :: "nat \<Rightarrow> bool" where
  "mask_header bitmask = (and bitmask 4 \<noteq> 0)"

text \<open>The block under \<open>if (bitmask & 4)\<close>: it clears \<open>outp\<close> and writes the header.\<close>

definition go_header ::
  "(nat \<Rightarrow> string \<Rightarrow> 'tm \<Rightarrow> string) \<Rightarrow> string \<Rightarrow> 'tm \<Rightarrow> string \<Rightarrow> nat \<Rightarrow> string" where
  "go_header strftime year timestamp dj bitmask =
     (let part1 = c_buffer 15 (strftime 15 ''%d %b %Y   '' timestamp);
          part2 = c_buffer 3 (strftime 3 ''%I'' timestamp);
          part3 = c_buffer 15 (strftime 15 '':%M %p   Cache'' timestamp)
      in ''~Format=5.S~'' @ [LF] @ take 14 part1
         @ (if hd part2 = CHR ''0'' then c_str (tl part2) else c_str part2)
         @ take 14 part3 @ [LF] @ ''^''
         @ (if \<not> mask_decimal bitmask then ''NON'' else [])
         @ ''DECGBL''
         @ ''('' @ [DQ] @ ''Subscript 1'' @ [DQ] @ '')'' @ [LF]
         @ dj @ ''_PLACEHOLDER FOR YEAR '' @ year @ [LF])"

text \<open>The body of the loop over \<open>codes\<close>: the two lines of one record.\<close>

definition go_record :: "nat \<Rightarrow> ICDCode \<Rightarrow> string" where
  "go_record bitmask it =
     ''^'' @ (if \<not> mask_decimal bitmask then ''NON'' else [])
     @ ''DECGBL('' @ [DQ] @ ''Subscript 1'' @ [DQ] @ '','' @ [DQ]
     @ (if mask_decimal bitmask then dec_code it else code it)
     @ [DQ] @ '')'' @ [LF]
     @ desc it @ [LF]"

text \<open>\<open>gen_go_file\<close>: \<open>outp\<close> is the string as the caller hands it over; without
  the header bit the text is appended to it.\<close>

definition gen_go_file ::
  "(nat \<Rightarrow> string \<Rightarrow> 'tm \<Rightarrow> string) \<Rightarrow> string \<Rightarrow> ICDCode list \<Rightarrow> string \<Rightarrow> 'tm \<Rightarrow> string \<Rightarrow> nat
     \<Rightarrow> string" where
  "gen_go_file strftime outp codes year timestamp dj bitmask =
     (let out1 = (if mask_header bitmask then go_header strftime year timestamp dj bitmask
                  else outp);
          out2 = foldl (\<lambda>out it. out @ go_record bitmask it) out1 codes
      in if mask_footer bitmask then out2 @ [LF, LF] else out2)"

text \<open>
  \<open>gen_files\<close>. The local time \<open>ltim\<close> and the day index \<open>dj\<close> come from the system
  clock and are parameters here. The four threads read the same data and each
  writes a string of its own, so their results are those of the four calls;
  \<open>comb2\<close> starts empty and is appended to \<open>comb\<close> after the joins. The result is
  the triple \<open>(dec, ndec, comb)\<close>.
\<close>

definition gen_files ::
  "(nat \<Rightarrow> string \<Rightarrow> 'tm \<Rightarrow> string) \<Rightarrow> 'tm \<Rightarrow> string \<Rightarrow> ICDCode list \<Rightarrow> string \<Rightarrow>
     string \<Rightarrow> string \<Rightarrow> string \<Rightarrow> string \<times> string \<times> string" where
  "gen_files strftime ltim dj codes year dec ndec comb =
     (let ndec1 = gen_go_file strftime ndec codes year ltim dj 6;
          dec1 = gen_go_file strftime dec codes year ltim dj 7;
          comb1 = gen_go_file strftime comb codes year ltim dj 4;
          comb2 = gen_go_file strftime [] codes year ltim dj 3
      in (dec1, ndec1, comb1 @ comb2))"

text \<open>
  A \<open>struct tm\<close> and \<open>strftime\<close> in the \<open>"C"\<close> locale, for the conversions the
  three format strings use, on a normalised time of the year 1900 or later (as
  \<open>localtime_s\<close> gives it for the system clock). \<open>strftime_C\<close> is one instance of
  the parameter \<open>strftime\<close> of \<open>gen_go_file\<close>. When the text and its NUL do not fit
  the array, \<open>strftime\<close> returns \<open>0\<close> and the C standard leaves the content of the
  array open; \<open>strftime_C\<close> gives the empty text there, so it stands for the library
  only where the text fits, which is the case for every year of four digits.
\<close>

record tm =
  tm_min :: nat
  tm_hour :: nat
  tm_mday :: nat
  tm_mon :: nat
  tm_year :: nat

definition digit :: "nat \<Rightarrow> char" where
  "digit d = char_of (48 + d mod 10)"

definition two_digits :: "nat \<Rightarrow> string" where
  "two_digits n = [digit (n div 10), digit n]"

text \<open>\<open>%Y\<close> writes the year as a decimal number, with as many digits as it has.\<close>

fun decimal_digits :: "nat \<Rightarrow> string" where
  "decimal_digits n = (if n < 10 then [digit n] else decimal_digits (n div 10) @ [digit n])"

declare decimal_digits.simps [simp del]

definition month_names :: "string list" where
  "month_names = [''Jan'', ''Feb'', ''Mar'', ''Apr'', ''May'', ''Jun'',
                  ''Jul'', ''Aug'', ''Sep'', ''Oct'', ''Nov'', ''Dec'']"

definition conversion :: "char \<Rightarrow> tm \<Rightarrow> string" where
  "conversion ch t =
     (if ch = CHR ''d'' then two_digits (tm_mday t)
      else if ch = CHR ''b'' then (if tm_mon t < 12 then month_names ! tm_mon t else ''?'')
      else if ch = CHR ''Y'' then decimal_digits (1900 + tm_year t)
      else if ch = CHR ''I'' then two_digits (if tm_hour t mod 12 = 0 then 12 else tm_hour t mod 12)
      else if ch = CHR ''M'' then two_digits (tm_min t)
      else if ch = CHR ''p'' then (if tm_hour t < 12 then ''AM'' else ''PM'')
      else [])"

fun format_C :: "string \<Rightarrow> tm \<Rightarrow> string" where
  "format_C [] t = []"
| "format_C [ch] t = [ch]"
| "format_C (ch # ch' # fmt) t =
     (if ch = CHR ''%'' then conversion ch' t @ format_C fmt t
      else ch # format_C (ch' # fmt) t)"

definition strftime_C :: "nat \<Rightarrow> string \<Rightarrow> tm \<Rightarrow> string" where
  "strftime_C maxsize fmt t = (if length (format_C fmt t) < maxsize then format_C fmt t else [])"

section \<open>Notions used in the statements\<close>

text \<open>What every object built by the class satisfies: a key with a value slot
  or a place in \<open>key_order\<close> has a found slot, every found slot belongs to a
  registered spelling, and only long keys are aliased.\<close>

definition parser_inv :: "ArgParser \<Rightarrow> bool" where
  "parser_inv P =
     (dom (values_tbl P) \<subseteq> dom (keys_found P) \<and>
      set (key_order P) \<subseteq> dom (keys_found P) \<and>
      dom (keys_found P) \<subseteq> short_keys P \<union> long_keys P \<and>
      dom (keys_trans P) \<subseteq> long_keys P)"

text \<open>\<open>same_keys P P'\<close>: the two objects have the same vocabulary and the same
  slots; only the contents of the found and value slots may differ.\<close>

definition same_keys :: "ArgParser \<Rightarrow> ArgParser \<Rightarrow> bool" where
  "same_keys P P' =
     (keys_trans P' = keys_trans P \<and> key_order P' = key_order P \<and>
      short_keys P' = short_keys P \<and> long_keys P' = long_keys P \<and>
      dom (keys_found P') = dom (keys_found P) \<and> dom (values_tbl P') = dom (values_tbl P))"

text \<open>The objects a client of the public interface can hold: built by a
  constructor, then changed by \<open>add_token\<close> and \<open>parse\<close> calls in any order.\<close>

inductive reachable :: "ArgParser \<Rightarrow> bool" where
  r_init: "init tokens_short tokens_long = Inr P \<Longrightarrow> reachable P"
| r_add: "reachable P \<Longrightarrow>
          reachable (snd (add_token P short_token long_token has_value positional))"
| r_parse: "reachable P \<Longrightarrow> parse P argv = Inr P' \<Longrightarrow> reachable P'"

text \<open>The parser of \<open>main\<close> as an object.\<close>

definition the_main_parser :: ArgParser where
  "the_main_parser =
     snd (add_token (snd (add_token (foldl init_step empty_parser main_tokens)
                                    ''?'' ''help'' False True))
                    ''q'' ''quiet'' False True)"

text \<open>
  A rendering as the specification names it, by its three flags: decimal or
  non-decimal form, with or without the header, with or without the trailing
  blank lines; generated into an empty string.
\<close>

definition rendering ::
  "(nat \<Rightarrow> string \<Rightarrow> 'tm \<Rightarrow> string) \<Rightarrow> ICDCode list \<Rightarrow> string \<Rightarrow> 'tm \<Rightarrow> string \<Rightarrow>
     bool \<Rightarrow> bool \<Rightarrow> bool \<Rightarrow> string" where
  "rendering strftime codes year timestamp dj decimal header trailer =
     gen_go_file strftime [] codes year timestamp dj
       ((if decimal then 1 else 0) + (if trailer then 2 else 0) + (if header then 4 else 0))"

text \<open>A sample time, 2 November 2026, 09:05.\<close>

definition sample_time :: tm where
  "sample_time = \<lparr>tm_min = 5, tm_hour = 9, tm_mday = 2, tm_mon = 10, tm_year = 126\<rparr>"

text \<open>
  The objects built by a constructor and \<open>add_token\<close> calls only, before any
  \<open>parse\<close>.
\<close>

inductive built :: "ArgParser \<Rightarrow> bool" where
  b_init: "init tokens_short tokens_long = Inr P \<Longrightarrow> built P"
| b_add: "built P \<Longrightarrow> built (snd (add_token P short_token long_token has_value positional))"

text \<open>
  \<open>reaches_end P pre\<close>: the first loop of \<open>parse\<close>, run over the arguments \<open>pre\<close>,
  comes to their end with nothing pending: no known option that takes a value is
  the last of them, where it would take the argument after \<open>pre\<close> as its value.
  The argument that follows \<open>pre\<close> is then looked at as an argument of its own.
\<close>

fun reaches_end :: "ArgParser \<Rightarrow> string list \<Rightarrow> bool" where
  "reaches_end P [] = True"
| "reaches_end P (a # rest) =
     (if is_option a \<and> keys_found P (option_key P a) \<noteq> None
         \<and> values_tbl P (option_key P a) \<noteq> None
      then (case rest of [] \<Rightarrow> False | v # rest' \<Rightarrow> reaches_end P rest')
      else reaches_end P rest)"

text \<open>\<open>dedup ks\<close>: the list \<open>ks\<close> with only the first occurrence of each key kept.\<close>

fun dedup :: "'a list \<Rightarrow> 'a list" where
  "dedup [] = []"
| "dedup (k # ks) = k # dedup (removeAll k ks)"

text \<open>The test of the second loop of \<open>parse\<close>,
  \<open>!keys_found.at(it) && values.contains(it)\<close>: the key is not found yet and takes
  a value.\<close>

definition assignable :: "ArgParser \<Rightarrow> string \<Rightarrow> bool" where
  "assignable P k = (keys_found P k = Some False \<and> values_tbl P k \<noteq> None)"

text \<open>What a client does after \<open>parse\<close>, as \<open>main\<close> does: ask for a token.\<close>

definition found_after :: "ArgParser \<Rightarrow> string list \<Rightarrow> string \<Rightarrow> error + bool" where
  "found_after P argv token =
     (case parse P argv of Inl e \<Rightarrow> Inl e | Inr P' \<Rightarrow> Inr (found P' token))"

definition value_after :: "ArgParser \<Rightarrow> string list \<Rightarrow> string \<Rightarrow> error + string" where
  "value_after P argv token =
     (case parse P argv of Inl e \<Rightarrow> Inl e | Inr P' \<Rightarrow> get_value P' token)"

text \<open>
  Small registries: the pair \<open>(y, year)\<close> registered once with a value; registered
  a second time without a value; registered without a value only; the long key
  \<open>year\<close> registered a second time with another short key, \<open>x\<close>; the long key
  \<open>year\<close> registered alone and then again with the short key \<open>y\<close>; and three
  registries built by the constructors: three short keys, three pairs in which
  \<open>b\<close> is both the long key of \<open>a\<close> and a short key of its own, and the short key
  \<open>a\<close> given twice.
\<close>

definition reg_once :: ArgParser where
  "reg_once = snd (add_token empty_parser ''y'' ''year'' True True)"



definition reg_alias :: ArgParser where
  "reg_alias = snd (add_token reg_once ''x'' ''year'' True True)"



definition reg_three :: ArgParser where
  "reg_three = foldl init_step empty_parser [(''src'', []), (''dst'', []), (''tag'', [])]"

definition reg_chain :: ArgParser where
  "reg_chain = foldl init_step empty_parser [(''a'', ''b''), (''b'', ''c''), (''d'', ''e'')]"

definition reg_dup :: ArgParser where
  "reg_dup = foldl init_step empty_parser [(''a'', []), (''a'', []), (''b'', [])]"

text \<open>
  Sample lines of the code file. The sequence number is in columns 0 to 4, the
  code in columns 6 to 13, the flag in column 14, and the long description starts
  in column 77; \<open>filler\<close> is the 62 characters of columns 15 to 76.
\<close>

definition filler :: string where
  "filler = '' Cholera due to Vibrio cholerae 01, biovar cholerae           ''"

definition line_foo :: string where
  "line_foo = ''00001 A00100001'' @ filler @ ''Foo   '' @ [LF]"

definition line_short_code :: string where
  "line_short_code = ''00003 A00     1'' @ filler @ ''Cholera  '' @ [CR, LF]"

definition line_no_desc :: string where
  "line_no_desc = ''00004 A00100001'' @ filler @ [LF]"

definition line_truncated :: string where
  "line_truncated = ''00001 A00100001''"

definition line_cut_short :: string where
  "line_cut_short = ''00002 B'' @ [LF]"

definition rec_foo :: ICDCode where
  "rec_foo = \<lparr>code = ''A0010000'', dec_code = ''A00.10000'', desc = ''Foo''\<rparr>"

definition rec_short :: ICDCode where
  "rec_short = \<lparr>code = ''A00'', dec_code = ''A00'', desc = ''Cholera''\<rparr>"

definition rec_stale :: ICDCode where
  "rec_stale = \<lparr>code = [CHR ''B'', LF], dec_code = [CHR ''B'', LF], desc = []\<rparr>"

text \<open>
  A line of the code file by its fields: the six characters before the code, the
  code padded with blanks to eight columns, the flag, the 62 characters of
  columns 15 to 76, the rest of the line from column 77 on, and the line end.
\<close>

definition code_line :: "string \<Rightarrow> string \<Rightarrow> char \<Rightarrow> string \<Rightarrow> string \<Rightarrow> string \<Rightarrow> string" where
  "code_line seq cs flag fill d eol =
     seq @ cs @ replicate (8 - length cs) (CHR '' '') @ [flag] @ fill @ d @ eol"

text \<open>The decimal form as the specification words it: a point after the third
  code character when more code characters follow.\<close>

definition dec_form :: "string \<Rightarrow> string" where
  "dec_form cs = (if 3 < length cs then take 3 cs @ [CHR ''.''] @ drop 3 cs else cs)"

text \<open>What the code-column branch of \<open>columns\<close> does to the record over a run of
  code characters that starts in column \<open>col\<close>.\<close>

fun push_code :: "nat \<Rightarrow> string \<Rightarrow> ICDCode \<Rightarrow> ICDCode" where
  "push_code col [] c = c"
| "push_code col (ch # cs) c =
     push_code (col + 1) cs
       (c\<lparr>code := code c @ [ch],
          dec_code := (if col = 9 then dec_code c @ [CHR ''.''] else dec_code c) @ [ch]\<rparr>)"

section \<open>The argument parser keeps its invariant\<close>

lemma dom_map_insert: "dom (map_insert m k v) = insert k (dom m)"
  by (auto simp: map_insert_def split: option.splits)

lemma parser_inv_empty: "parser_inv empty_parser"
  by (simp add: parser_inv_def empty_parser_def)

lemma parser_inv_init_step: "parser_inv P \<Longrightarrow> parser_inv (init_step P tk)"
  by (auto simp: parser_inv_def init_step_def Let_def dom_map_insert)

lemma parser_inv_foldl_init_step: "parser_inv P \<Longrightarrow> parser_inv (foldl init_step P tks)"
  by (induction tks arbitrary: P) (simp_all add: parser_inv_init_step)

lemma parser_inv_init: "init ts tls = Inr P \<Longrightarrow> parser_inv P"
  by (auto simp: init_def parser_inv_foldl_init_step parser_inv_empty split: if_splits)

lemma parser_inv_add_token: "parser_inv P \<Longrightarrow> parser_inv (snd (add_token P s l hv pos))"
  by (auto simp: parser_inv_def add_token_def Let_def dom_map_insert)

lemma same_keys_refl: "same_keys P P"
  by (simp add: same_keys_def)

lemma same_keys_trans: "same_keys P Q \<Longrightarrow> same_keys Q R \<Longrightarrow> same_keys P R"
  by (simp add: same_keys_def)

lemma same_keys_found_upd:
  "keys_found P k = Some b \<Longrightarrow> same_keys P (P\<lparr>keys_found := (keys_found P)(k \<mapsto> c)\<rparr>)"
  by (auto simp: same_keys_def)

lemma same_keys_values_upd:
  "values_tbl P k = Some b \<Longrightarrow> same_keys P (P\<lparr>values_tbl := (values_tbl P)(k \<mapsto> c)\<rparr>)"
  by (auto simp: same_keys_def)

lemma same_keys_both_upd:
  "values_tbl P k = Some b \<Longrightarrow> keys_found P k = Some f \<Longrightarrow>
   same_keys P (P\<lparr>values_tbl := (values_tbl P)(k \<mapsto> c), keys_found := (keys_found P)(k \<mapsto> d)\<rparr>)"
  by (auto simp: same_keys_def)

text \<open>One round of the first loop of \<open>parse\<close> hands a shorter rest of the
  arguments and an object with the same slots to the next round.\<close>

lemma option_key_same_keys: "same_keys P P1 \<Longrightarrow> option_key P1 a = option_key P a"
  by (simp add: option_key_def translate_def same_keys_def)

lemma scan_args_roundI:
  "scan_args (a # rest) P ex = scan_args rest' P1 ex1 \<Longrightarrow> same_keys P P1 \<Longrightarrow>
   length rest' \<le> length rest \<Longrightarrow> set rest' \<subseteq> set rest \<Longrightarrow>
   (\<forall>k. keys_found P k = Some True \<longrightarrow> keys_found P1 k = Some True) \<Longrightarrow>
   (\<forall>k. (is_option a \<longrightarrow> option_key P a \<noteq> k) \<longrightarrow> values_tbl P1 k = values_tbl P k) \<Longrightarrow>
   \<exists>rest' P1 ex1. scan_args (a # rest) P ex = scan_args rest' P1 ex1 \<and> same_keys P P1 \<and>
       length rest' \<le> length rest \<and> set rest' \<subseteq> set rest \<and>
       (\<forall>k. keys_found P k = Some True \<longrightarrow> keys_found P1 k = Some True) \<and>
       (\<forall>k. (is_option a \<longrightarrow> option_key P a \<noteq> k) \<longrightarrow> values_tbl P1 k = values_tbl P k)"
  by blast

lemma scan_args_round:
  "\<exists>rest' P1 ex1. scan_args (a # rest) P ex = scan_args rest' P1 ex1 \<and> same_keys P P1 \<and>
       length rest' \<le> length rest \<and> set rest' \<subseteq> set rest \<and>
       (\<forall>k. keys_found P k = Some True \<longrightarrow> keys_found P1 k = Some True) \<and>
       (\<forall>k. (is_option a \<longrightarrow> option_key P a \<noteq> k) \<longrightarrow> values_tbl P1 k = values_tbl P k)"
proof (cases "is_option a")
  case False
  then have e: "scan_args (a # rest) P ex = scan_args rest P (ex @ [strip_quotes a])" by simp
  show ?thesis by (rule scan_args_roundI[OF e same_keys_refl]) simp_all
next
  case opt: True
  define arg where "arg = option_key P a"
  show ?thesis
  proof (cases "keys_found P arg")
    case None
    with opt arg_def have e: "scan_args (a # rest) P ex = scan_args rest P (ex @ [a])" by simp
    show ?thesis by (rule scan_args_roundI[OF e same_keys_refl]) simp_all
  next
    case (Some b)
    define P1 where "P1 = P\<lparr>keys_found := (keys_found P)(arg \<mapsto> True)\<rparr>"
    have k1: "same_keys P P1"
      unfolding P1_def using Some by (rule same_keys_found_upd)
    have m1: "\<forall>k. keys_found P k = Some True \<longrightarrow> keys_found P1 k = Some True"
      by (simp add: P1_def)
    have v1: "\<forall>k. (is_option a \<longrightarrow> option_key P a \<noteq> k) \<longrightarrow> values_tbl P1 k = values_tbl P k"
      by (simp add: P1_def)
    show ?thesis
    proof (cases rest)
      case Nil
      with opt Some arg_def P1_def have e: "scan_args (a # rest) P ex = scan_args rest P1 ex"
        by (simp add: Let_def)
      show ?thesis by (rule scan_args_roundI[OF e k1 _ _ m1 v1]) simp_all
    next
      case (Cons v rest')
      show ?thesis
      proof (cases "values_tbl P arg")
        case None
        with opt Some arg_def P1_def Cons
        have e: "scan_args (a # rest) P ex = scan_args rest P1 ex"
          by (simp add: Let_def)
        show ?thesis by (rule scan_args_roundI[OF e k1 _ _ m1 v1]) simp_all
      next
        case sv: (Some w)
        define P2 where "P2 = P1\<lparr>values_tbl := (values_tbl P1)(arg \<mapsto> v)\<rparr>"
        have k2: "same_keys P1 P2"
          unfolding P2_def by (rule same_keys_values_upd[of _ _ w]) (simp add: P1_def sv)
        have k: "same_keys P P2" using k1 k2 by (rule same_keys_trans)
        have m2: "\<forall>k. keys_found P k = Some True \<longrightarrow> keys_found P2 k = Some True"
          by (simp add: P2_def P1_def)
        have v2: "\<forall>k. (is_option a \<longrightarrow> option_key P a \<noteq> k) \<longrightarrow> values_tbl P2 k = values_tbl P k"
          using opt arg_def by (simp add: P2_def P1_def)
        from opt Some arg_def P1_def P2_def Cons sv
        have e: "scan_args (a # rest) P ex = scan_args rest' P2 ex"
          by (simp add: Let_def)
        show ?thesis by (rule scan_args_roundI[OF e k _ _ m2 v2]) (auto simp: Cons)
      qed
    qed
  qed
qed

lemma scan_args_same_keys: "same_keys P (fst (scan_args as P ex))"
proof (induction "length as" arbitrary: as P ex rule: less_induct)
  case less
  show ?case
  proof (cases as)
    case Nil
    then show ?thesis by (simp add: same_keys_refl)
  next
    case (Cons a rest)
    from scan_args_round[of a rest P ex] obtain rest' P1 ex1 where
      e: "scan_args (a # rest) P ex = scan_args rest' P1 ex1" and k: "same_keys P P1"
      and l: "length rest' \<le> length rest" by blast
    from l Cons have "length rest' < length as" by simp
    from less[OF this] have "same_keys P1 (fst (scan_args rest' P1 ex1))" .
    with k e Cons show ?thesis by (simp add: same_keys_trans)
  qed
qed

lemma backfill_same_keys: "backfill ks P ex = Inr P' \<Longrightarrow> same_keys P P'"
proof (induction ks P ex arbitrary: P' rule: backfill.induct)
  case (1 P extras)
  then show ?case by (simp add: same_keys_refl)
next
  case (2 it ks P extras)
  show ?case
  proof (cases extras)
    case Nil
    with "2.prems" show ?thesis by (simp add: same_keys_refl)
  next
    case (Cons e extras')
    from "2.prems" Cons obtain f where f: "keys_found P it = Some f"
      by (auto split: option.splits)
    show ?thesis
    proof (cases "\<not> f \<and> values_tbl P it \<noteq> None")
      case True
      then obtain w where w: "values_tbl P it = Some w" by auto
      let ?P1 = "P\<lparr>values_tbl := (values_tbl P)(it \<mapsto> e), keys_found := (keys_found P)(it \<mapsto> True)\<rparr>"
      from "2.prems" Cons f True have "backfill ks ?P1 extras' = Inr P'" by simp
      with "2.IH"(1)[OF Cons f] True have "same_keys ?P1 P'" by simp
      moreover have "same_keys P ?P1" using w f by (rule same_keys_both_upd)
      ultimately show ?thesis by (blast intro: same_keys_trans)
    next
      case False
      with "2.prems" Cons f have "backfill ks P extras = Inr P'" by auto
      with "2.IH"(2)[OF Cons f False] show ?thesis by simp
    qed
  qed
qed

lemma backfill_total:
  "set ks \<subseteq> dom (keys_found P) \<Longrightarrow> \<exists>P'. backfill ks P ex = Inr P'"
proof (induction ks P ex rule: backfill.induct)
  case (1 P extras)
  then show ?case by simp
next
  case (2 it ks P extras)
  show ?case
  proof (cases extras)
    case Nil
    then show ?thesis by simp
  next
    case (Cons e extras')
    from "2.prems" obtain f where f: "keys_found P it = Some f" by auto
    show ?thesis
    proof (cases "\<not> f \<and> values_tbl P it \<noteq> None")
      case True
      have "set ks \<subseteq> dom (keys_found (P\<lparr>values_tbl := (values_tbl P)(it \<mapsto> e),
                   keys_found := (keys_found P)(it \<mapsto> True)\<rparr>))"
        using "2.prems" by auto
      from "2.IH"(1)[OF Cons f True this] Cons f True show ?thesis by simp
    next
      case False
      have "set ks \<subseteq> dom (keys_found P)" using "2.prems" by simp
      from "2.IH"(2)[OF Cons f False this] Cons f False show ?thesis by auto
    qed
  qed
qed

lemma parse_same_keys: "parse P argv = Inr P' \<Longrightarrow> same_keys P P'"
proof -
  assume a: "parse P argv = Inr P'"
  obtain P1 ex where s: "scan_args (drop 1 argv) P [] = (P1, ex)" by fastforce
  with a have "backfill (key_order P1) P1 ex = Inr P'" by (simp add: parse_def)
  then have "same_keys P1 P'" by (rule backfill_same_keys)
  moreover have "same_keys P P1" using scan_args_same_keys[of P "drop 1 argv" "[]"] s by simp
  ultimately show ?thesis by (blast intro: same_keys_trans)
qed

lemma parser_inv_same_keys: "parser_inv P \<Longrightarrow> same_keys P P' \<Longrightarrow> parser_inv P'"
  by (simp add: parser_inv_def same_keys_def)

lemma parser_inv_parse: "parser_inv P \<Longrightarrow> parse P argv = Inr P' \<Longrightarrow> parser_inv P'"
  by (blast intro: parser_inv_same_keys parse_same_keys)

lemma parse_total: "parser_inv P \<Longrightarrow> \<exists>P'. parse P argv = Inr P'"
proof -
  assume inv: "parser_inv P"
  obtain P1 ex where s: "scan_args (drop 1 argv) P [] = (P1, ex)" by fastforce
  have "same_keys P P1" using scan_args_same_keys[of P "drop 1 argv" "[]"] s by simp
  with inv have "parser_inv P1" by (rule parser_inv_same_keys)
  then have "set (key_order P1) \<subseteq> dom (keys_found P1)" by (simp add: parser_inv_def)
  from backfill_total[OF this] s show ?thesis by (simp add: parse_def)
qed

lemma reachable_inv: "reachable P \<Longrightarrow> parser_inv P"
proof (induction rule: reachable.induct)
  case (r_init tokens_short tokens_long P)
  then show ?case by (rule parser_inv_init)
next
  case (r_add P short_token long_token has_value positional)
  then show ?case by (simp add: parser_inv_add_token)
next
  case (r_parse P argv P')
  then show ?case by (simp add: parser_inv_parse)
qed

lemma found_unregistered:
  "parser_inv P \<Longrightarrow> token \<notin> short_keys P \<Longrightarrow> token \<notin> long_keys P \<Longrightarrow> found P token = False"
  by (auto simp: parser_inv_def found_def translate_def split: option.splits)

lemma get_value_unregistered:
  "parser_inv P \<Longrightarrow> token \<notin> short_keys P \<Longrightarrow> token \<notin> long_keys P \<Longrightarrow> get_value P token = Inr []"
  by (auto simp: parser_inv_def get_value_def translate_def split: option.splits)

lemma get_value_no_throw: "parser_inv P \<Longrightarrow> \<exists>v. get_value P t = Inr v"
  by (auto simp: parser_inv_def get_value_def Let_def split: option.splits)

lemma the_main_parser_reachable: "reachable the_main_parser"
  unfolding the_main_parser_def
  apply (rule r_add)
  apply (rule r_add)
  apply (rule r_init[of "map fst main_tokens" "map snd main_tokens"])
  apply (simp add: init_def zip_map_fst_snd)
  done

lemma main_parser_eq: "main_parser = Inr the_main_parser"
  by (simp add: main_parser_def ArgParser_pairs_def init_def zip_map_fst_snd the_main_parser_def)

section \<open>The read accessors\<close>

text \<open>
  Claim C10. On every object the public interface can produce, and for every token
  that was registered neither as a short nor as a long key, \<open>found\<close> returns false
  and \<open>get_value\<close> returns the empty string; and \<open>get_value\<close> throws for no token
  at all (\<open>found\<close> has no throwing path). Both are \<open>const\<close> member functions: they
  take the object and return a value, so they change nothing.
\<close>

theorem accessors_total:
  "reachable P \<Longrightarrow> token \<notin> short_keys P \<Longrightarrow> token \<notin> long_keys P \<Longrightarrow>
     found P token = False \<and> get_value P token = Inr [] \<and> (\<forall>t. \<exists>v. get_value P t = Inr v)"
  using reachable_inv found_unregistered get_value_unregistered get_value_no_throw by blast

lemmas main_parser_unfold =
  the_main_parser_def main_tokens_def init_step_def add_token_def empty_parser_def Let_def
  map_insert_def

theorem accessors_total_witness:
  "reachable the_main_parser \<and> ''verbose'' \<notin> short_keys the_main_parser \<and>
   ''verbose'' \<notin> long_keys the_main_parser \<and>
   found the_main_parser ''verbose'' = False \<and> get_value the_main_parser ''verbose'' = Inr [] \<and>
   (\<forall>t. \<exists>v. get_value the_main_parser t = Inr v)"
proof -
  have r: "reachable the_main_parser" by (rule the_main_parser_reachable)
  have s: "''verbose'' \<notin> short_keys the_main_parser" by (simp add: main_parser_unfold)
  have l: "''verbose'' \<notin> long_keys the_main_parser" by (simp add: main_parser_unfold)
  from accessors_total[OF r s l] r s l show ?thesis by blast
qed

section \<open>The combined file\<close>

lemma rendering_masks:
  "rendering f c y t d False True False = gen_go_file f [] c y t d 4"
  "rendering f c y t d True False True = gen_go_file f [] c y t d 3"
  "rendering f c y t d True True False = gen_go_file f [] c y t d 5"
  "rendering f c y t d False False True = gen_go_file f [] c y t d 2"
  by (simp_all add: rendering_def numeral_2_eq_2 numeral_3_eq_3)

lemma comb_ignores_outp:
  "gen_go_file strftime outp codes year ltim dj 4 = gen_go_file strftime [] codes year ltim dj 4"
  by (simp add: gen_go_file_def mask_header_def)

text \<open>
  Claim C1, as the code has it. For every record collection, year, time stamp, day
  index and every previous content of the three strings, the combined buffer is
  the non-decimal rendering with header and without trailer, immediately followed
  by the decimal rendering without header and with trailer: the two halves are in
  the order of the comments in \<open>gen_files\<close> (\<open>4 = non-decimal, with header\<close>,
  \<open>3 = decimal, with footer\<close>), the reverse of the order the claim gives.
\<close>

theorem combined_is_concatenation:
  "snd (snd (gen_files strftime ltim dj codes year dec ndec comb)) =
     rendering strftime codes year ltim dj False True False
     @ rendering strftime codes year ltim dj True False True"
  by (simp add: gen_files_def rendering_masks Let_def
        comb_ignores_outp[of strftime comb codes year ltim dj])

theorem combined_is_concatenation_witness:
  "snd (snd (gen_files strftime_C sample_time ''20394'' [] ''2027'' [] [] [])) =
     rendering strftime_C [] ''2027'' sample_time ''20394'' False True False
     @ rendering strftime_C [] ''2027'' sample_time ''20394'' True False True"
  using combined_is_concatenation[of strftime_C sample_time "''20394''" "[]" "''2027''" "[]" "[]" "[]"]
  by simp

text \<open>The claim as stated (decimal header-only rendering first, non-decimal
  trailer-only rendering second) fails already for the empty collection: the
  block name of the header stands in the first half.\<close>

theorem combined_order_counterexample:
  "snd (snd (gen_files strftime_C sample_time ''20394'' [] ''2027'' [] [] [])) \<noteq>
     rendering strftime_C [] ''2027'' sample_time ''20394'' True True False
     @ rendering strftime_C [] ''2027'' sample_time ''20394'' False False True"
  by (simp add: gen_files_def rendering_masks gen_go_file_def go_header_def mask_header_def
        mask_decimal_def mask_footer_def Let_def)

section \<open>The code file parser on sample lines\<close>

lemmas parse_eval = scan_codes_def parse_loop.simps columns_def line_end_def at_str_def
  strip_trailing.simps empty_code_def Let_def

lemma scan_foo: "scan_codes line_foo [] = Inr [rec_foo]"
  by (simp add: parse_eval line_foo_def filler_def rec_foo_def)

lemma scan_truncated: "scan_codes line_truncated [] = Inl undefined_behaviour"
  by (simp add: parse_eval line_truncated_def)

lemma scan_no_desc: "scan_codes line_no_desc [] = Inl undefined_behaviour"
  by (simp add: parse_eval line_no_desc_def filler_def)

lemma scan_stale: "scan_codes (line_foo @ line_cut_short) [] = Inr [rec_foo, rec_stale]"
  by (simp add: parse_eval line_foo_def line_cut_short_def filler_def rec_foo_def rec_stale_def)

lemma not_comp_icdcode: "(\<not> comp_icdcode b a) = (code a \<le> code b)"
  by (auto simp: comp_icdcode_def)

lemma std_sort_single: "std_sort cmp [x] ys = (ys = [x])"
  by (auto simp: std_sort_def)

section \<open>One flagged line\<close>

text \<open>
  The loop of \<open>parse_codes\<close> one iteration at a time: a code character, the jump
  over the blanks of a short code, the jump from the flag to column 76, a
  character of the description, and the two line ends.
\<close>

lemma parse_loop_step:
  "i + 1 < length data \<Longrightarrow> columns data (i + 1) col h c = Inr (i1, col1, h1, c1) \<Longrightarrow>
   line_end data i1 col1 h1 c1 codes = Inr (i2, col2, h2, c2, codes2) \<Longrightarrow>
     parse_loop data i col h c codes = parse_loop data i2 (col2 + 1) h2 c2 codes2"
  by (subst parse_loop.simps) simp

lemma parse_loop_done: "\<not> i + 1 < length data \<Longrightarrow> parse_loop data i col h c codes = Inr codes"
  by (subst parse_loop.simps) simp

lemma line_end_none:
  "i < length data \<Longrightarrow> data ! i \<noteq> CR \<Longrightarrow> data ! i \<noteq> LF \<Longrightarrow>
     line_end data i col h c codes = Inr (i, col, h, c, codes)"
  by (simp add: line_end_def at_str_def)

lemma step_code_char:
  assumes "i + 1 < length data" "6 \<le> col" "col < 14"
    and "data ! (i + 1) \<noteq> CHR '' ''" "data ! (i + 1) \<noteq> CR" "data ! (i + 1) \<noteq> LF"
  shows "parse_loop data i col h c codes =
           parse_loop data (i + 1) (col + 1) h (push_code col [data ! (i + 1)] c) codes"
proof -
  have "columns data (i + 1) col h c = Inr (i + 1, col, h, push_code col [data ! (i + 1)] c)"
    using assms by (simp add: columns_def)
  moreover have "line_end data (i + 1) col h (push_code col [data ! (i + 1)] c) codes =
      Inr (i + 1, col, h, push_code col [data ! (i + 1)] c, codes)"
    using assms by (intro line_end_none) simp_all
  ultimately show ?thesis using assms(1) by (rule parse_loop_step[rotated])
qed

lemma step_blank:
  assumes "i + 1 < length data" "6 \<le> col" "col < 14" "data ! (i + 1) = CHR '' ''"
    and "i + 1 + (13 - col) < length data"
    and "data ! (i + 1 + (13 - col)) \<noteq> CR" "data ! (i + 1 + (13 - col)) \<noteq> LF"
  shows "parse_loop data i col h c codes = parse_loop data (i + 1 + (13 - col)) 14 h c codes"
proof -
  have "columns data (i + 1) col h c = Inr (i + 1 + (13 - col), 13, h, c)"
    using assms by (simp add: columns_def)
  moreover have "line_end data (i + 1 + (13 - col)) 13 h c codes =
      Inr (i + 1 + (13 - col), 13, h, c, codes)"
    using assms by (intro line_end_none) simp_all
  ultimately have "parse_loop data i col h c codes =
      parse_loop data (i + 1 + (13 - col)) (13 + 1) h c codes"
    using assms(1) by (rule parse_loop_step[rotated])
  then show ?thesis by simp
qed

lemma step_flag:
  assumes "i + 1 < length data" "i + 63 < length data"
    and "data ! (i + 63) \<noteq> CR" "data ! (i + 63) \<noteq> LF"
  shows "parse_loop data i 14 h c codes = parse_loop data (i + 63) 77 (data ! (i + 1)) c codes"
proof -
  have "columns data (i + 1) 14 h c = Inr (i + 63, 76, data ! (i + 1), c)"
    by (simp add: columns_def)
  moreover have "line_end data (i + 63) 76 (data ! (i + 1)) c codes =
      Inr (i + 63, 76, data ! (i + 1), c, codes)"
    using assms by (intro line_end_none) simp_all
  ultimately have "parse_loop data i 14 h c codes =
      parse_loop data (i + 63) (76 + 1) (data ! (i + 1)) c codes"
    using assms(1) by (rule parse_loop_step[rotated])
  then show ?thesis by simp
qed

lemma step_desc_char:
  assumes "i + 1 < length data" "77 \<le> col"
    and "data ! (i + 1) \<noteq> CR" "data ! (i + 1) \<noteq> LF"
  shows "parse_loop data i col (CHR ''1'') c codes =
           parse_loop data (i + 1) (col + 1) (CHR ''1'') (c\<lparr>desc := desc c @ [data ! (i + 1)]\<rparr>) codes"
proof -
  have "columns data (i + 1) col (CHR ''1'') c =
      Inr (i + 1, col, CHR ''1'', c\<lparr>desc := desc c @ [data ! (i + 1)]\<rparr>)"
    using assms by (simp add: columns_def)
  moreover have "line_end data (i + 1) col (CHR ''1'') (c\<lparr>desc := desc c @ [data ! (i + 1)]\<rparr>) codes =
      Inr (i + 1, col, CHR ''1'', c\<lparr>desc := desc c @ [data ! (i + 1)]\<rparr>, codes)"
    using assms by (intro line_end_none) simp_all
  ultimately show ?thesis using assms(1) by (rule parse_loop_step[rotated])
qed

lemma step_line_feed:
  assumes "i + 1 < length data" "77 \<le> col" "data ! (i + 1) = LF"
    and "strip_trailing (desc c) = Some d"
  shows "parse_loop data i col (CHR ''1'') c codes =
           parse_loop data (i + 1 + 6) 6 (CHR ''1'') empty_code (codes @ [c\<lparr>desc := d\<rparr>])"
proof -
  have "columns data (i + 1) col (CHR ''1'') c = Inr (i + 1, col, CHR ''1'', c\<lparr>desc := d\<rparr>)"
    using assms by (simp add: columns_def)
  moreover have "line_end data (i + 1) col (CHR ''1'') (c\<lparr>desc := d\<rparr>) codes =
      Inr (i + 1 + 6, 5, CHR ''1'', empty_code, codes @ [c\<lparr>desc := d\<rparr>])"
    using assms by (simp add: line_end_def at_str_def)
  ultimately have "parse_loop data i col (CHR ''1'') c codes =
      parse_loop data (i + 1 + 6) (5 + 1) (CHR ''1'') empty_code (codes @ [c\<lparr>desc := d\<rparr>])"
    using assms(1) by (rule parse_loop_step[rotated])
  then show ?thesis by simp
qed

lemma step_carriage_return:
  assumes "i + 2 < length data" "77 \<le> col" "data ! (i + 1) = CR" "data ! (i + 2) = LF"
    and "strip_trailing (desc c) = Some d"
  shows "parse_loop data i col (CHR ''1'') c codes =
           parse_loop data (i + 2 + 6) 6 (CHR ''1'') empty_code (codes @ [c\<lparr>desc := d\<rparr>])"
proof -
  have l: "i + 1 < length data" using assms(1) by simp
  have "columns data (i + 1) col (CHR ''1'') c = Inr (i + 1, col, CHR ''1'', c\<lparr>desc := d\<rparr>)"
    using assms by (simp add: columns_def)
  moreover have "line_end data (i + 1) col (CHR ''1'') (c\<lparr>desc := d\<rparr>) codes =
      Inr (i + 2 + 6, 5, CHR ''1'', empty_code, codes @ [c\<lparr>desc := d\<rparr>])"
    using assms by (simp add: line_end_def at_str_def)
  ultimately have "parse_loop data i col (CHR ''1'') c codes =
      parse_loop data (i + 2 + 6) (5 + 1) (CHR ''1'') empty_code (codes @ [c\<lparr>desc := d\<rparr>])"
    using l by (rule parse_loop_step[rotated])
  then show ?thesis by simp
qed

lemma code_run:
  "data = pre @ cs @ rest \<Longrightarrow> length pre = i + 1 \<Longrightarrow> 6 \<le> col \<Longrightarrow> col + length cs \<le> 14 \<Longrightarrow>
   \<forall>ch\<in>set cs. ch \<noteq> CHR '' '' \<and> ch \<noteq> CR \<and> ch \<noteq> LF \<Longrightarrow>
     parse_loop data i col h c codes =
       parse_loop data (i + length cs) (col + length cs) h (push_code col cs c) codes"
proof (induction cs arbitrary: pre i col c)
  case Nil
  then show ?case by simp
next
  case (Cons ch cs)
  have at: "data ! (i + 1) = ch" using Cons.prems(1,2) by (simp add: nth_append)
  have len: "i + 1 < length data" using Cons.prems(1,2) by simp
  have s: "parse_loop data i col h c codes =
             parse_loop data (i + 1) (col + 1) h (push_code col [ch] c) codes"
    using step_code_char[of i data col h c codes] len at Cons.prems by simp
  have "parse_loop data (i + 1) (col + 1) h (push_code col [ch] c) codes =
          parse_loop data (i + 1 + length cs) (col + 1 + length cs) h
            (push_code (col + 1) cs (push_code col [ch] c)) codes"
    using Cons.prems by (intro Cons.IH[of "pre @ [ch]"]) simp_all
  with s show ?case by simp
qed

lemma desc_run:
  "data = pre @ xs @ rest \<Longrightarrow> length pre = i + 1 \<Longrightarrow> 77 \<le> col \<Longrightarrow>
   \<forall>ch\<in>set xs. ch \<noteq> CR \<and> ch \<noteq> LF \<Longrightarrow>
     parse_loop data i col (CHR ''1'') c codes =
       parse_loop data (i + length xs) (col + length xs) (CHR ''1'') (c\<lparr>desc := desc c @ xs\<rparr>) codes"
proof (induction xs arbitrary: pre i col c)
  case Nil
  then show ?case by simp
next
  case (Cons ch xs)
  have at: "data ! (i + 1) = ch" using Cons.prems(1,2) by (simp add: nth_append)
  have len: "i + 1 < length data" using Cons.prems(1,2) by simp
  have s: "parse_loop data i col (CHR ''1'') c codes =
             parse_loop data (i + 1) (col + 1) (CHR ''1'') (c\<lparr>desc := desc c @ [ch]\<rparr>) codes"
    using step_desc_char[of i data col c codes] len at Cons.prems by simp
  have "parse_loop data (i + 1) (col + 1) (CHR ''1'') (c\<lparr>desc := desc c @ [ch]\<rparr>) codes =
          parse_loop data (i + 1 + length xs) (col + 1 + length xs) (CHR ''1'')
            ((c\<lparr>desc := desc c @ [ch]\<rparr>)\<lparr>desc := desc (c\<lparr>desc := desc c @ [ch]\<rparr>) @ xs\<rparr>) codes"
    using Cons.prems by (intro Cons.IH[of "pre @ [ch]"]) simp_all
  with s show ?case by simp
qed

lemma push_code_fields:
  "push_code col cs c =
     c\<lparr>code := code c @ cs,
       dec_code := dec_code c @
         (if col \<le> 9 \<and> 9 < col + length cs
          then take (9 - col) cs @ [CHR ''.''] @ drop (9 - col) cs else cs)\<rparr>"
proof (induction cs arbitrary: col c)
  case Nil
  then show ?case by simp
next
  case (Cons ch cs)
  show ?case
  proof (cases "col = 9")
    case True
    then show ?thesis by (simp add: Cons.IH)
  next
    case False
    show ?thesis
    proof (cases "col < 9 \<and> 9 < col + 1 + length cs")
      case True
      then obtain m where m: "9 - col = Suc m" "9 - (col + 1) = m"
        by (cases "9 - col") auto
      with True False show ?thesis by (simp add: Cons.IH)
    next
      case f2: False
      with False show ?thesis by (auto simp: Cons.IH)
    qed
  qed
qed

lemma push_code_empty:
  "length cs \<le> 8 \<Longrightarrow> push_code 6 cs empty_code = \<lparr>code = cs, dec_code = dec_form cs, desc = []\<rparr>"
  by (auto simp: push_code_fields empty_code_def dec_form_def)

lemma strip_trailing_blanks:
  "body \<noteq> [] \<Longrightarrow> last body \<noteq> CHR '' '' \<Longrightarrow>
     strip_trailing (body @ replicate n (CHR '' '')) = Some body"
proof (induction n)
  case 0
  then show ?case by (simp add: strip_trailing.simps)
next
  case (Suc n)
  have e: "body @ replicate (Suc n) (CHR '' '') = (body @ replicate n (CHR '' '')) @ [CHR '' '']"
    by (simp add: replicate_append_same)
  have "strip_trailing ((body @ replicate n (CHR '' '')) @ [CHR '' '']) =
          strip_trailing (body @ replicate n (CHR '' ''))"
    by (subst strip_trailing.simps) (simp del: replicate_Suc append_assoc)
  with Suc e show ?case by (simp del: replicate_Suc)
qed

lemma nth_pre [simp]: "length pre = i \<Longrightarrow> (pre @ x # rest) ! i = x"
  by (simp add: nth_append)

lemma parse_line:
  assumes seq: "length seq = 6"
    and cs: "length cs \<le> 8" "\<forall>ch\<in>set cs. ch \<noteq> CHR '' '' \<and> ch \<noteq> CR \<and> ch \<noteq> LF"
    and fill: "length fill = 62" "last fill \<noteq> CR" "last fill \<noteq> LF"
    and body: "body \<noteq> []" "last body \<noteq> CHR '' ''" "\<forall>ch\<in>set body. ch \<noteq> CR \<and> ch \<noteq> LF"
    and eol: "eol = [LF] \<or> eol = [CR, LF]"
    and line: "line = code_line seq cs (CHR ''1'') fill (body @ replicate n (CHR '' '')) eol"
  shows "parse_loop (pre @ line @ post) (length pre + 5) 6 h empty_code codes =
           parse_loop (pre @ line @ post) (length pre + length line + 5) 6 (CHR ''1'') empty_code
             (codes @ [\<lparr>code = cs, dec_code = dec_form cs, desc = body\<rparr>])"
proof -
  define data where "data = pre @ line @ post"
  define pad where "pad = replicate (8 - length cs) (CHR '' '')"
  define d where "d = body @ replicate n (CHR '' '')"
  define c1 where "c1 = \<lparr>code = cs, dec_code = dec_form cs, desc = []\<rparr>"
  define p where "p = length pre"
  have dat: "data = pre @ seq @ cs @ pad @ [CHR ''1''] @ fill @ d @ eol @ post"
    by (simp add: data_def line code_line_def pad_def d_def)
  have lpad: "length cs + length pad = 8" using cs(1) by (simp add: pad_def)
  have fill_ne: "fill \<noteq> []" using fill(1) by auto
  obtain f0 fl where fl: "fill = f0 @ [fl]" "length f0 = 61" "fl \<noteq> CR" "fl \<noteq> LF"
  proof
    show "fill = butlast fill @ [last fill]" using fill_ne by simp
    show "length (butlast fill) = 61" using fill(1) by simp
    show "last fill \<noteq> CR" "last fill \<noteq> LF" using fill(2,3) by simp_all
  qed
  have s1: "parse_loop data (p + 5) 6 h empty_code codes =
              parse_loop data (p + 5 + length cs) (6 + length cs) h c1 codes"
  proof -
    have "parse_loop data (p + 5) 6 h empty_code codes =
            parse_loop data (p + 5 + length cs) (6 + length cs) h (push_code 6 cs empty_code) codes"
      using cs seq by (intro code_run[of data "pre @ seq" cs "pad @ [CHR ''1''] @ fill @ d @ eol @ post"])
        (simp_all add: dat p_def)
    then show ?thesis using cs(1) by (simp add: push_code_empty c1_def)
  qed
  have s2: "parse_loop data (p + 5 + length cs) (6 + length cs) h c1 codes =
              parse_loop data (p + 13) 14 h c1 codes"
  proof (cases "length cs = 8")
    case True
    then show ?thesis by (simp add: add.commute)
  next
    case False
    then obtain pad' where pad': "pad = CHR '' '' # pad'"
      using cs(1) by (cases "8 - length cs") (auto simp: pad_def)
    have lp': "length cs + length pad' = 7" using lpad pad' by simp
    have padr: "pad = replicate (7 - length cs) (CHR '' '') @ [CHR '' '']"
      using False cs(1) unfolding pad_def replicate_append_same
      by (simp add: Suc_diff_le flip: replicate_Suc)
    have split: "data = (pre @ seq @ cs @ replicate (7 - length cs) (CHR '' '')) @
                   CHR '' '' # ([CHR ''1''] @ fill @ d @ eol @ post)"
      by (simp add: dat padr)
    have at1: "data ! (p + 5 + length cs + 1) = CHR '' ''"
      using seq by (simp add: dat pad' nth_append p_def)
    have at2: "data ! (p + 13) = CHR '' ''"
      unfolding split using seq False cs(1) by (intro nth_pre) (simp add: p_def)
    have len: "p + 13 < length data" unfolding split using seq False cs(1) by (simp add: p_def)
    have e: "p + 5 + length cs + 1 + (13 - (6 + length cs)) = p + 13" using lp' by simp
    have "parse_loop data (p + 5 + length cs) (6 + length cs) h c1 codes =
            parse_loop data (p + 5 + length cs + 1 + (13 - (6 + length cs))) 14 h c1 codes"
      using at1 at2 len lp' e by (intro step_blank) (simp_all add: add.commute)
    then show ?thesis by (simp only: e)
  qed
  have s3: "parse_loop data (p + 13) 14 h c1 codes = parse_loop data (p + 76) 77 (CHR ''1'') c1 codes"
  proof -
    have split1: "data = (pre @ seq @ cs @ pad) @ CHR ''1'' # (fill @ d @ eol @ post)"
      by (simp add: dat)
    have split2: "data = (pre @ seq @ cs @ pad @ [CHR ''1''] @ f0) @ fl # (d @ eol @ post)"
      by (simp add: dat fl(1))
    have at1: "data ! (p + 13 + 1) = CHR ''1''"
      unfolding split1 using seq lpad by (intro nth_pre) (simp add: p_def)
    have at2: "data ! (p + 13 + 63) = fl"
      unfolding split2 using seq lpad fl(2) by (intro nth_pre) (simp add: p_def)
    have len: "p + 13 + 63 < length data" unfolding split2 using seq lpad fl(2) by (simp add: p_def)
    have "parse_loop data (p + 13) 14 h c1 codes =
            parse_loop data (p + 13 + 63) 77 (data ! (p + 13 + 1)) c1 codes"
      using at2 len fl(3,4) by (intro step_flag) simp_all
    also have "data ! (p + 13 + 1) = CHR ''1''" by (rule at1)
    also have "p + 13 + 63 = p + 76" by simp
    finally show ?thesis .
  qed
  have s4: "parse_loop data (p + 76) 77 (CHR ''1'') c1 codes =
              parse_loop data (p + 76 + length d) (77 + length d) (CHR ''1'') (c1\<lparr>desc := d\<rparr>) codes"
  proof -
    have dd: "\<forall>ch\<in>set d. ch \<noteq> CR \<and> ch \<noteq> LF"
    proof
      fix ch
      assume "ch \<in> set d"
      then have "ch \<in> set body \<or> ch = CHR '' ''" by (simp add: d_def in_set_replicate) blast
      then show "ch \<noteq> CR \<and> ch \<noteq> LF"
      proof
        assume "ch \<in> set body"
        with body(3) show ?thesis by (rule bspec)
      next
        assume "ch = CHR '' ''"
        then show ?thesis by simp
      qed
    qed
    have "parse_loop data (p + 76) 77 (CHR ''1'') c1 codes =
            parse_loop data (p + 76 + length d) (77 + length d) (CHR ''1'')
              (c1\<lparr>desc := desc c1 @ d\<rparr>) codes"
      using dd seq lpad fill(1)
      by (intro desc_run[of data "pre @ seq @ cs @ pad @ [CHR ''1''] @ fill" d "eol @ post"])
        (simp_all add: dat p_def)
    then show ?thesis by (simp add: c1_def)
  qed
  have st: "strip_trailing (desc (c1\<lparr>desc := d\<rparr>)) = Some body"
    using strip_trailing_blanks[OF body(1,2)] by (simp add: d_def)
  have lline: "length line = 77 + length d + length eol"
    using seq lpad fill(1) by (simp add: line code_line_def d_def pad_def)
  have s5: "parse_loop data (p + 76 + length d) (77 + length d) (CHR ''1'') (c1\<lparr>desc := d\<rparr>) codes =
              parse_loop data (p + 76 + length d + length eol + 6) 6 (CHR ''1'') empty_code
                (codes @ [c1\<lparr>desc := body\<rparr>])"
  proof -
    define A where "A = pre @ seq @ cs @ pad @ [CHR ''1''] @ fill @ d"
    have split: "data = A @ eol @ post"
      by (simp add: dat A_def)
    have lp: "length A = p + 76 + length d + 1"
      using seq lpad fill(1) by (simp add: p_def A_def)
    have c3: "(c1\<lparr>desc := d\<rparr>)\<lparr>desc := body\<rparr> = c1\<lparr>desc := body\<rparr>" by simp
    from eol show ?thesis
    proof
      assume e: "eol = [LF]"
      have split1: "data = A @ LF # post" by (simp add: split e)
      have at: "data ! (p + 76 + length d + 1) = LF"
        unfolding split1 using lp by (rule nth_pre)
      have len: "p + 76 + length d + 1 < length data"
        unfolding split1 using lp by simp
      have "parse_loop data (p + 76 + length d) (77 + length d) (CHR ''1'') (c1\<lparr>desc := d\<rparr>) codes =
              parse_loop data (p + 76 + length d + 1 + 6) 6 (CHR ''1'') empty_code
                (codes @ [(c1\<lparr>desc := d\<rparr>)\<lparr>desc := body\<rparr>])"
        using len _ at st by (rule step_line_feed) simp
      also note c3
      also have "p + 76 + length d + 1 + 6 = p + 76 + length d + length eol + 6" by (simp add: e)
      finally show ?thesis .
    next
      assume e: "eol = [CR, LF]"
      have split1: "data = A @ CR # LF # post" by (simp add: split e)
      have split2: "data = (A @ [CR]) @ LF # post" by (simp add: split e)
      have at1: "data ! (p + 76 + length d + 1) = CR"
        unfolding split1 using lp by (rule nth_pre)
      have at2: "data ! (p + 76 + length d + 2) = LF"
        unfolding split2 using lp by (intro nth_pre) simp
      have len: "p + 76 + length d + 2 < length data"
        unfolding split1 using lp by simp
      have "parse_loop data (p + 76 + length d) (77 + length d) (CHR ''1'') (c1\<lparr>desc := d\<rparr>) codes =
              parse_loop data (p + 76 + length d + 2 + 6) 6 (CHR ''1'') empty_code
                (codes @ [(c1\<lparr>desc := d\<rparr>)\<lparr>desc := body\<rparr>])"
        using len _ at1 at2 st by (rule step_carriage_return) simp
      also note c3
      also have "p + 76 + length d + 2 + 6 = p + 76 + length d + length eol + 6" by (simp add: e)
      finally show ?thesis .
    qed
  qed
  have idx: "p + 76 + length d + length eol + 6 = p + length line + 5"
    using lline eol by auto
  have c2: "c1\<lparr>desc := body\<rparr> = \<lparr>code = cs, dec_code = dec_form cs, desc = body\<rparr>"
    by (simp add: c1_def)
  note s1
  also note s2
  also note s3
  also note s4
  also note s5
  also note idx
  also note c2
  finally show ?thesis unfolding data_def p_def .
qed

lemma scan_line:
  assumes seq: "length seq = 6"
    and cs: "length cs \<le> 8" "\<forall>ch\<in>set cs. ch \<noteq> CHR '' '' \<and> ch \<noteq> CR \<and> ch \<noteq> LF"
    and fill: "length fill = 62" "last fill \<noteq> CR" "last fill \<noteq> LF"
    and body: "body \<noteq> []" "last body \<noteq> CHR '' ''" "\<forall>ch\<in>set body. ch \<noteq> CR \<and> ch \<noteq> LF"
    and eol: "eol = [LF] \<or> eol = [CR, LF]"
  shows "scan_codes (code_line seq cs (CHR ''1'') fill (body @ replicate n (CHR '' '')) eol) codes =
           Inr (codes @ [\<lparr>code = cs, dec_code = dec_form cs, desc = body\<rparr>])"
proof -
  let ?line = "code_line seq cs (CHR ''1'') fill (body @ replicate n (CHR '' '')) eol"
  have "parse_loop ([] @ ?line @ []) (length ([]::string) + 5) 6 NUL empty_code codes =
          parse_loop ([] @ ?line @ []) (length ([]::string) + length ?line + 5) 6 (CHR ''1'') empty_code
            (codes @ [\<lparr>code = cs, dec_code = dec_form cs, desc = body\<rparr>])"
    using assms by (intro parse_line) simp_all
  then show ?thesis
    by (simp add: scan_codes_def parse_loop_done)
qed

text \<open>
  Claim C6. Take any line of the code file with the flag \<open>1\<close> in column 14: six
  characters before the code, a code \<open>cs\<close> of at most eight characters other than
  blank and line end, padded with blanks to column 13, then the flag, 62 more
  characters, a description \<open>body\<close> that is not empty and does not end in a blank,
  any number \<open>n\<close> of trailing blanks, and LF or CR LF. Wherever the line stands in
  the file (after any text \<open>pre\<close> that ended a line, before any text \<open>post\<close>),
  the loop goes from the start of the line to the start of the next one and
  appends exactly one record: the code \<open>cs\<close>, the decimal code with a point after
  the third character when more code characters follow and \<open>cs\<close> itself otherwise,
  and the description \<open>body\<close> with the trailing blanks stripped. For the line alone
  this record is the one result of the scan and of \<open>parse_codes\<close>. The line of the
  claim is the case \<open>cs = A0010000\<close>, \<open>body = Foo\<close>, with the record
  \<open>{A0010000, A00.10000, Foo}\<close>.
\<close>

theorem parse_round_trip:
  assumes seq: "length seq = 6"
    and cs: "length cs \<le> 8" "\<forall>ch\<in>set cs. ch \<noteq> CHR '' '' \<and> ch \<noteq> CR \<and> ch \<noteq> LF"
    and fill: "length fill = 62" "last fill \<noteq> CR" "last fill \<noteq> LF"
    and body: "body \<noteq> []" "last body \<noteq> CHR '' ''" "\<forall>ch\<in>set body. ch \<noteq> CR \<and> ch \<noteq> LF"
    and eol: "eol = [LF] \<or> eol = [CR, LF]"
    and line: "line = code_line seq cs (CHR ''1'') fill (body @ replicate n (CHR '' '')) eol"
    and r: "r = \<lparr>code = cs,
                 dec_code = (if 3 < length cs then take 3 cs @ [CHR ''.''] @ drop 3 cs else cs),
                 desc = body\<rparr>"
  shows "(\<forall>pre post h codes.
            parse_loop (pre @ line @ post) (length pre + 5) 6 h empty_code codes =
            parse_loop (pre @ line @ post) (length pre + length line + 5) 6 (CHR ''1'') empty_code
              (codes @ [r])) \<and>
         (\<forall>codes. scan_codes line codes = Inr (codes @ [r])) \<and>
         (\<forall>res. parse_codes line [] res = (res = Inr [r]))"
proof -
  have r': "r = \<lparr>code = cs, dec_code = dec_form cs, desc = body\<rparr>"
    by (simp add: r dec_form_def)
  have a: "parse_loop (pre @ line @ post) (length pre + 5) 6 h empty_code codes =
           parse_loop (pre @ line @ post) (length pre + length line + 5) 6 (CHR ''1'') empty_code
             (codes @ [r])" for pre post h codes
    unfolding r' using seq cs fill body eol line by (rule parse_line)
  have b: "scan_codes line codes = Inr (codes @ [r])" for codes
    unfolding r' line using seq cs fill body eol by (rule scan_line)
  have c: "parse_codes line [] res = (res = Inr [r])" for res
    by (cases res) (simp_all add: parse_codes_def b std_sort_single)
  from a b c show ?thesis by blast
qed

theorem parse_round_trip_witness:
  "line_foo = code_line ''00001 '' ''A0010000'' (CHR ''1'') filler (''Foo'' @ replicate 3 (CHR '' '')) [LF] \<and>
   scan_codes line_foo [] = Inr [rec_foo] \<and>
   parse_codes line_foo [] (Inr [rec_foo]) \<and>
   line_short_code =
     code_line ''00003 '' ''A00'' (CHR ''1'') filler (''Cholera'' @ replicate 2 (CHR '' '')) [CR, LF] \<and>
   scan_codes line_short_code [] = Inr [rec_short] \<and>
   parse_codes line_short_code [] (Inr [rec_short])"
proof -
  have l1: "line_foo =
      code_line ''00001 '' ''A0010000'' (CHR ''1'') filler (''Foo'' @ replicate 3 (CHR '' '')) [LF]"
    by (simp add: line_foo_def code_line_def numeral_3_eq_3)
  have l2: "line_short_code =
      code_line ''00003 '' ''A00'' (CHR ''1'') filler (''Cholera'' @ replicate 2 (CHR '' '')) [CR, LF]"
    by (simp add: line_short_code_def code_line_def numeral_2_eq_2 eval_nat_numeral)
  have f: "length filler = 62" "last filler \<noteq> CR" "last filler \<noteq> LF"
    by (simp_all add: filler_def)
  have r1: "rec_foo = \<lparr>code = ''A0010000'',
      dec_code = (if 3 < length ''A0010000'' then take 3 ''A0010000'' @ [CHR ''.''] @ drop 3 ''A0010000''
                  else ''A0010000''),
      desc = ''Foo''\<rparr>"
    by (simp add: rec_foo_def)
  have r2: "rec_short = \<lparr>code = ''A00'',
      dec_code = (if 3 < length ''A00'' then take 3 ''A00'' @ [CHR ''.''] @ drop 3 ''A00'' else ''A00''),
      desc = ''Cholera''\<rparr>"
    by (simp add: rec_short_def)
  have "(\<forall>codes. scan_codes line_foo codes = Inr (codes @ [rec_foo])) \<and>
        (\<forall>res. parse_codes line_foo [] res = (res = Inr [rec_foo]))"
    using parse_round_trip[of "''00001 ''" "''A0010000''" filler "''Foo''" "[LF]" line_foo 3 rec_foo,
        OF _ _ _ f _ _ _ _ l1 r1]
    by simp
  then have sa: "\<forall>codes. scan_codes line_foo codes = Inr (codes @ [rec_foo])"
    and pa: "\<forall>res. parse_codes line_foo [] res = (res = Inr [rec_foo])" by blast+
  have a: "scan_codes line_foo [] = Inr [rec_foo]" "parse_codes line_foo [] (Inr [rec_foo])"
    using sa[rule_format, of "[]"] pa[rule_format, of "Inr [rec_foo]"] by simp_all
  have "(\<forall>codes. scan_codes line_short_code codes = Inr (codes @ [rec_short])) \<and>
        (\<forall>res. parse_codes line_short_code [] res = (res = Inr [rec_short]))"
    using parse_round_trip[of "''00003 ''" "''A00''" filler "''Cholera''" "[CR, LF]" line_short_code
        2 rec_short, OF _ _ _ f _ _ _ _ l2 r2]
    by simp
  then have sb: "\<forall>codes. scan_codes line_short_code codes = Inr (codes @ [rec_short])"
    and pb: "\<forall>res. parse_codes line_short_code [] res = (res = Inr [rec_short])" by blast+
  have b: "scan_codes line_short_code [] = Inr [rec_short]"
    "parse_codes line_short_code [] (Inr [rec_short])"
    using sb[rule_format, of "[]"] pb[rule_format, of "Inr [rec_short]"] by simp_all
  from l1 l2 a b show ?thesis by (simp only: simp_thms)
qed

section \<open>Reads outside the data\<close>

text \<open>
  Claim C2 says that \<open>parse_codes\<close> reads nothing out of bounds on any input. The
  code does: on a file cut off right after the flag column the jump \<open>i += 62\<close> is
  followed by the read \<open>data[i]\<close> of the line-end test, 61 characters past the end;
  and on a flagged line whose description is empty, \<open>code.desc.back()\<close> is called
  on the empty string. Both are undefined behaviour, and the only outcome of the
  model.
\<close>

theorem parse_codes_out_of_bounds:
  "scan_codes line_truncated [] = Inl undefined_behaviour \<and>
   scan_codes line_no_desc [] = Inl undefined_behaviour \<and>
   parse_codes line_truncated [] res = (res = Inl undefined_behaviour) \<and>
   parse_codes line_no_desc [] res' = (res' = Inl undefined_behaviour)"
  by (simp add: parse_codes_def scan_truncated scan_no_desc)

section \<open>The flag of the line before\<close>

text \<open>
  Claim C4 says that a line which never reaches column 14 contributes no record.
  \<open>hipaa\<close> is set in column 14 only and, unlike \<open>code\<close>, is not reset at a line end.
  A line that ends inside the code columns is therefore pushed whenever the line
  before it carried the flag \<open>1\<close>: here the second line, \<open>00002 B\<close>, gives a record
  whose code is \<open>B\<close> and the line feed.
\<close>

theorem short_line_contributes_record:
  "scan_codes (line_foo @ line_cut_short) [] = Inr [rec_foo, rec_stale] \<and>
   scan_codes line_foo [] = Inr [rec_foo] \<and>
   parse_codes (line_foo @ line_cut_short) [] (Inr [rec_foo, rec_stale])"
  by (simp add: parse_codes_def scan_stale scan_foo std_sort_def not_comp_icdcode
        rec_foo_def rec_stale_def)

section \<open>Registering a key twice\<close>

lemmas parser_eval = parse_def option_key_def is_option_def translate_def found_def get_value_def
  strip_quotes_def add_token_def empty_parser_def map_insert_def Let_def found_after_def
  value_after_def




section \<open>Short and long spelling of a key\<close>

text \<open>
  Claim C7, as the code has it. When the alias table maps the long key \<open>l\<close> to the
  short key \<open>s\<close> (the pair \<open>(s, l)\<close> was registered and \<open>l\<close> had not been registered
  before with another short key) and \<open>s\<close> is not itself a key of the alias table
  (it is not the long key of some other pair), then after every run of \<open>parse\<close>
  the two spellings agree: \<open>found(s) = found(l)\<close> and \<open>get_value(s) = get_value(l)\<close>.
\<close>

theorem alias_symmetry:
  "keys_trans P l = Some s \<Longrightarrow> keys_trans P s = None \<Longrightarrow> parse P argv = Inr P' \<Longrightarrow>
     found P' s = found P' l \<and> get_value P' s = get_value P' l"
proof -
  assume l: "keys_trans P l = Some s" and s: "keys_trans P s = None" and p: "parse P argv = Inr P'"
  from parse_same_keys[OF p] have "keys_trans P' = keys_trans P" by (simp add: same_keys_def)
  with l s show ?thesis by (simp add: found_def get_value_def translate_def)
qed

theorem alias_symmetry_witness:
  "keys_trans reg_once ''year'' = Some ''y'' \<and> keys_trans reg_once ''y'' = None \<and>
   found_after reg_once [''prog'', ''--year'', ''2024''] ''y'' = Inr True \<and>
   found_after reg_once [''prog'', ''--year'', ''2024''] ''year'' = Inr True \<and>
   value_after reg_once [''prog'', ''--year'', ''2024''] ''y'' = Inr ''2024'' \<and>
   value_after reg_once [''prog'', ''--year'', ''2024''] ''year'' = Inr ''2024''"
proof -
  define P' where "P' = reg_once\<lparr>keys_found := (keys_found reg_once)(''y'' \<mapsto> True),
                                values_tbl := (values_tbl reg_once)(''y'' \<mapsto> ''2024'')\<rparr>"
  have t: "keys_trans reg_once ''year'' = Some ''y''"
    by (simp add: reg_once_def add_token_def empty_parser_def map_insert_def Let_def)
  have n: "keys_trans reg_once ''y'' = None"
    by (simp add: reg_once_def add_token_def empty_parser_def map_insert_def Let_def)
  have p: "parse reg_once [''prog'', ''--year'', ''2024''] = Inr P'"
    by (simp add: parser_eval reg_once_def P'_def)
  have fy: "found P' ''y''"
    by (simp add: parser_eval reg_once_def P'_def)
  have vy: "get_value P' ''y'' = Inr ''2024''"
    by (simp add: parser_eval reg_once_def P'_def)
  from alias_symmetry[OF t n p] fy vy t n p show ?thesis
    by (simp add: found_after_def value_after_def)
qed

text \<open>
  The claim as stated, for every registered pair, fails for the pair \<open>(x, year)\<close>
  registered after \<open>(y, year)\<close>: both keys are known, and after \<open>-x 1\<close> the short
  key is found with its value while the long key is not.
\<close>

theorem alias_symmetry_counterexample:
  "found_after reg_alias [''prog'', ''-x'', ''1''] ''x'' = Inr True \<and>
   found_after reg_alias [''prog'', ''-x'', ''1''] ''year'' = Inr False \<and>
   value_after reg_alias [''prog'', ''-x'', ''1''] ''x'' = Inr ''1'' \<and>
   value_after reg_alias [''prog'', ''-x'', ''1''] ''year'' = Inr [] \<and>
   ''x'' \<in> short_keys reg_alias \<and> ''year'' \<in> long_keys reg_alias"
  by (simp add: parser_eval reg_once_def reg_alias_def)

section \<open>An option and its value\<close>

lemma scan_args_bare_prefix:
  "\<forall>a\<in>set pre. \<not> is_option a \<Longrightarrow>
     scan_args (pre @ rest) P ex = scan_args rest P (ex @ map strip_quotes pre)"
  by (induction pre arbitrary: ex) simp_all

lemma scan_args_option_value:
  "is_option tok \<Longrightarrow> option_key P tok = k \<Longrightarrow> keys_found P k = Some b \<Longrightarrow>
   values_tbl P k = Some w \<Longrightarrow>
     scan_args (tok # v # post) P ex =
       scan_args post (P\<lparr>keys_found := (keys_found P)(k \<mapsto> True),
                          values_tbl := (values_tbl P)(k \<mapsto> v)\<rparr>) ex"
  by (simp add: Let_def)

lemma scan_args_option_last:
  "is_option tok \<Longrightarrow> option_key P tok = k \<Longrightarrow> keys_found P k = Some b \<Longrightarrow>
     scan_args [tok] P ex = (P\<lparr>keys_found := (keys_found P)(k \<mapsto> True)\<rparr>, ex)"
  by (simp add: Let_def)

lemma scan_args_found_mono:
  "keys_found P k = Some True \<Longrightarrow> keys_found (fst (scan_args as P ex)) k = Some True"
proof (induction "length as" arbitrary: as P ex rule: less_induct)
  case less
  show ?case
  proof (cases as)
    case Nil
    with less.prems show ?thesis by simp
  next
    case (Cons a rest)
    from scan_args_round[of a rest P ex] obtain rest' P1 ex1 where
      e: "scan_args (a # rest) P ex = scan_args rest' P1 ex1"
      and l: "length rest' \<le> length rest"
      and m: "\<forall>k. keys_found P k = Some True \<longrightarrow> keys_found P1 k = Some True" by blast
    from l Cons have "length rest' < length as" by simp
    moreover from m less.prems have "keys_found P1 k = Some True" by simp
    ultimately have "keys_found (fst (scan_args rest' P1 ex1)) k = Some True"
      by (rule less.hyps)
    with e Cons show ?thesis by simp
  qed
qed

lemma scan_args_value_kept:
  "\<forall>a\<in>set as. is_option a \<longrightarrow> option_key P a \<noteq> k \<Longrightarrow>
     values_tbl (fst (scan_args as P ex)) k = values_tbl P k"
proof (induction "length as" arbitrary: as P ex rule: less_induct)
  case less
  show ?case
  proof (cases as)
    case Nil
    then show ?thesis by simp
  next
    case (Cons a rest)
    from scan_args_round[of a rest P ex] obtain rest' P1 ex1 where
      e: "scan_args (a # rest) P ex = scan_args rest' P1 ex1"
      and sk: "same_keys P P1"
      and l: "length rest' \<le> length rest" and s: "set rest' \<subseteq> set rest"
      and v: "\<forall>k. (is_option a \<longrightarrow> option_key P a \<noteq> k) \<longrightarrow> values_tbl P1 k = values_tbl P k"
      by blast
    from l Cons have l': "length rest' < length as" by simp
    have "\<forall>a\<in>set rest'. is_option a \<longrightarrow> option_key P1 a \<noteq> k"
      using less.prems s Cons by (auto simp: option_key_same_keys[OF sk])
    with l' have "values_tbl (fst (scan_args rest' P1 ex1)) k = values_tbl P1 k"
      by (rule less.hyps)
    moreover from v less.prems Cons have "values_tbl P1 k = values_tbl P k" by simp
    ultimately show ?thesis using e Cons by simp
  qed
qed

lemma backfill_found_kept:
  "backfill ks P ex = Inr P' \<Longrightarrow> keys_found P k = Some True \<Longrightarrow>
     keys_found P' k = Some True \<and> values_tbl P' k = values_tbl P k"
proof (induction ks P ex arbitrary: P' rule: backfill.induct)
  case (1 P extras)
  then show ?case by simp
next
  case (2 it ks P extras)
  show ?case
  proof (cases extras)
    case Nil
    with "2.prems" show ?thesis by simp
  next
    case (Cons e extras')
    from "2.prems" Cons obtain f where f: "keys_found P it = Some f"
      by (auto split: option.splits)
    show ?thesis
    proof (cases "\<not> f \<and> values_tbl P it \<noteq> None")
      case True
      let ?P1 = "P\<lparr>values_tbl := (values_tbl P)(it \<mapsto> e), keys_found := (keys_found P)(it \<mapsto> True)\<rparr>"
      from True f "2.prems"(2) have ne: "k \<noteq> it" by auto
      from "2.prems" Cons f True have b: "backfill ks ?P1 extras' = Inr P'" by simp
      have "keys_found ?P1 k = Some True" using "2.prems"(2) by simp
      from "2.IH"(1)[OF Cons f True b this] ne show ?thesis by simp
    next
      case False
      with "2.prems" Cons f have b: "backfill ks P extras = Inr P'" by auto
      from "2.IH"(2)[OF Cons f False b "2.prems"(2)] show ?thesis .
    qed
  qed
qed

lemma found_get_value_slot:
  "keys_trans P' = keys_trans P \<Longrightarrow> translate P t = k \<Longrightarrow> keys_found P' k = Some True \<Longrightarrow>
   values_tbl P' k = Some v \<Longrightarrow> found P' t \<and> get_value P' t = Inr v"
  by (simp add: found_def get_value_def translate_def)

lemma parse_after_scan:
  assumes inv: "parser_inv P" and sc: "scan_args (drop 1 argv) P [] = (P3, ex3)"
    and f: "keys_found P3 k = Some True"
  shows "\<exists>P'. parse P argv = Inr P' \<and> keys_trans P' = keys_trans P \<and>
           keys_found P' k = Some True \<and> values_tbl P' k = values_tbl P3 k"
proof -
  have sk: "same_keys P P3" using scan_args_same_keys[of P "drop 1 argv" "[]"] sc by simp
  with inv have "parser_inv P3" by (rule parser_inv_same_keys)
  then have "set (key_order P3) \<subseteq> dom (keys_found P3)" by (simp add: parser_inv_def)
  from backfill_total[OF this] obtain P' where b: "backfill (key_order P3) P3 ex3 = Inr P'"
    by blast
  then have p: "parse P argv = Inr P'" using sc by (simp add: parse_def)
  from backfill_found_kept[OF b f] have "keys_found P' k = Some True"
    and "values_tbl P' k = values_tbl P3 k" by simp_all
  moreover from parse_same_keys[OF p] have "keys_trans P' = keys_trans P"
    by (simp add: same_keys_def)
  ultimately show ?thesis using p by blast
qed

text \<open>Before the first \<open>parse\<close> every value slot holds the empty string.\<close>

lemma init_step_values_empty:
  "\<forall>k w. values_tbl P k = Some w \<longrightarrow> w = [] \<Longrightarrow>
   \<forall>k w. values_tbl (init_step P tk) k = Some w \<longrightarrow> w = []"
  by (auto simp: init_step_def Let_def map_insert_def split: option.splits if_splits)

lemma foldl_init_step_values_empty:
  "\<forall>k w. values_tbl P k = Some w \<longrightarrow> w = [] \<Longrightarrow>
   \<forall>k w. values_tbl (foldl init_step P tks) k = Some w \<longrightarrow> w = []"
proof (induction tks arbitrary: P)
  case Nil
  then show ?case by simp
next
  case (Cons tk tks)
  from Cons.prems have "\<forall>k w. values_tbl (init_step P tk) k = Some w \<longrightarrow> w = []"
    by (rule init_step_values_empty)
  then have "\<forall>k w. values_tbl (foldl init_step (init_step P tk) tks) k = Some w \<longrightarrow> w = []"
    by (rule Cons.IH)
  then show ?case by simp
qed

lemma add_token_values_empty:
  "\<forall>k w. values_tbl P k = Some w \<longrightarrow> w = [] \<Longrightarrow>
   \<forall>k w. values_tbl (snd (add_token P s l hv pos)) k = Some w \<longrightarrow> w = []"
  by (auto simp: add_token_def Let_def map_insert_def split: option.splits if_splits)

lemma built_values_empty: "built P \<Longrightarrow> \<forall>k w. values_tbl P k = Some w \<longrightarrow> w = []"
proof (induction rule: built.induct)
  case (b_init tokens_short tokens_long P)
  have "\<forall>k w. values_tbl empty_parser k = Some w \<longrightarrow> w = []" by (simp add: empty_parser_def)
  then have "\<forall>k w. values_tbl (foldl init_step empty_parser (zip tokens_short tokens_long)) k = Some w
      \<longrightarrow> w = []"
    by (rule foldl_init_step_values_empty)
  with b_init show ?case by (auto simp: init_def split: if_splits)
next
  case (b_add P short_token long_token has_value positional)
  from b_add.IH show ?case by (rule add_token_values_empty)
qed

lemma built_reachable: "built P \<Longrightarrow> reachable P"
  by (induction rule: built.induct) (auto intro: r_init r_add)

text \<open>
  The first loop over a prefix of the arguments that \<open>reaches_end\<close>: it leaves the
  rest of the arguments to be scanned from an object with the same keys, and has
  written only the value slots of the options of the prefix.
\<close>

lemma reaches_end_same_keys: "same_keys P Q \<Longrightarrow> reaches_end Q pre = reaches_end P pre"
proof (induction "length pre" arbitrary: pre rule: less_induct)
  case less
  note sk = less.prems
  show ?case
  proof (cases pre)
    case Nil
    then show ?thesis by simp
  next
    case (Cons a rest)
    have ok: "option_key Q a = option_key P a" using sk by (rule option_key_same_keys)
    from sk have dk: "dom (keys_found Q) = dom (keys_found P)"
      and dv: "dom (values_tbl Q) = dom (values_tbl P)" by (simp_all add: same_keys_def)
    have kf: "(keys_found Q k \<noteq> None) = (keys_found P k \<noteq> None)" for k
      using dk by (metis domIff)
    have vt: "(values_tbl Q k \<noteq> None) = (values_tbl P k \<noteq> None)" for k
      using dv by (metis domIff)
    have c: "(is_option a \<and> keys_found Q (option_key Q a) \<noteq> None \<and>
              values_tbl Q (option_key Q a) \<noteq> None) =
             (is_option a \<and> keys_found P (option_key P a) \<noteq> None \<and>
              values_tbl P (option_key P a) \<noteq> None)"
      unfolding ok using kf[of "option_key P a"] vt[of "option_key P a"] by blast
    have r: "reaches_end Q rest = reaches_end P rest"
      using less.hyps[of rest] sk by (simp add: Cons)
    show ?thesis
    proof (cases rest)
      case Nil
      show ?thesis
        by (simp only: Cons Nil reaches_end.simps(2)[of _ a] reaches_end.simps(1) list.case c)
    next
      case r2: (Cons v rest')
      have r': "reaches_end Q rest' = reaches_end P rest'"
        using less.hyps[of rest'] sk by (simp add: Cons r2)
      have r'': "reaches_end Q (v # rest') = reaches_end P (v # rest')"
        using r by (simp only: r2)
      show ?thesis
        by (simp only: Cons r2 reaches_end.simps(2)[of _ a] list.case c r' r'')
    qed
  qed
qed

lemma scan_args_flag:
  "is_option a \<Longrightarrow> option_key P a = k \<Longrightarrow> keys_found P k = Some b \<Longrightarrow>
   values_tbl P k = None \<Longrightarrow>
     scan_args (a # r) P ex = scan_args r (P\<lparr>keys_found := (keys_found P)(k \<mapsto> True)\<rparr>) ex"
  by (cases r) (simp_all add: Let_def scan_args.simps(2)[of a] del: scan_args.simps)

lemma scan_args_skip:
  assumes "\<not> (is_option a \<and> keys_found P (option_key P a) \<noteq> None
              \<and> values_tbl P (option_key P a) \<noteq> None)"
  shows "\<exists>P' ex'. (\<forall>r. scan_args (a # r) P ex = scan_args r P' ex') \<and> same_keys P P' \<and>
           values_tbl P' = values_tbl P"
proof (cases "is_option a")
  case False
  then have "\<forall>r. scan_args (a # r) P ex = scan_args r P (ex @ [strip_quotes a])" by simp
  then show ?thesis using same_keys_refl by blast
next
  case opt: True
  show ?thesis
  proof (cases "keys_found P (option_key P a)")
    case None
    with opt have "\<forall>r. scan_args (a # r) P ex = scan_args r P (ex @ [a])" by simp
    then show ?thesis using same_keys_refl by blast
  next
    case (Some b)
    with assms opt have n: "values_tbl P (option_key P a) = None" by simp
    let ?P' = "P\<lparr>keys_found := (keys_found P)(option_key P a \<mapsto> True)\<rparr>"
    have "\<forall>r. scan_args (a # r) P ex = scan_args r ?P' ex"
      using scan_args_flag[OF opt refl Some n] by blast
    moreover have "same_keys P ?P'" using Some by (rule same_keys_found_upd)
    moreover have "values_tbl ?P' = values_tbl P" by simp
    ultimately show ?thesis by blast
  qed
qed

lemma scan_args_prefix:
  "reaches_end P pre \<Longrightarrow>
   \<exists>P1 ex1. (\<forall>rest. scan_args (pre @ rest) P ex = scan_args rest P1 ex1) \<and> same_keys P P1 \<and>
     (\<forall>k. (\<forall>a\<in>set pre. is_option a \<longrightarrow> option_key P a \<noteq> k) \<longrightarrow>
          values_tbl P1 k = values_tbl P k)"
proof (induction "length pre" arbitrary: pre P ex rule: less_induct)
  case less
  show ?case
  proof (cases pre)
    case Nil
    show ?thesis
      by (rule exI[of _ P], rule exI[of _ ex]) (simp add: Nil same_keys_refl)
  next
    case (Cons a pre')
    define arg where "arg = option_key P a"
    show ?thesis
    proof (cases "is_option a \<and> keys_found P arg \<noteq> None \<and> values_tbl P arg \<noteq> None")
      case True
      then obtain b w where opt: "is_option a" and b: "keys_found P arg = Some b"
        and w: "values_tbl P arg = Some w" by auto
      from less.prems Cons True arg_def obtain v pre'' where p': "pre' = v # pre''"
        and re: "reaches_end P pre''"
        by (cases pre') auto
      define Q where "Q = P\<lparr>keys_found := (keys_found P)(arg \<mapsto> True),
                             values_tbl := (values_tbl P)(arg \<mapsto> v)\<rparr>"
      have skQ: "same_keys P Q"
        unfolding Q_def
        using same_keys_trans[OF same_keys_found_upd[OF b, of True]
                same_keys_values_upd[of "P\<lparr>keys_found := (keys_found P)(arg \<mapsto> True)\<rparr>" arg w v]] w
        by simp
      have step: "scan_args (pre @ rest) P ex = scan_args (pre'' @ rest) Q ex" for rest
        using scan_args_option_value[OF opt arg_def[symmetric] b w, of v "pre'' @ rest" ex]
        by (simp add: Cons p' Q_def)
      from re have reQ: "reaches_end Q pre''" by (simp add: reaches_end_same_keys[OF skQ])
      have "length pre'' < length pre" by (simp add: Cons p')
      from less.hyps[OF this reQ, of ex] obtain P1 ex1 where
        r: "\<forall>rest. scan_args (pre'' @ rest) Q ex = scan_args rest P1 ex1"
        and sk: "same_keys Q P1"
        and vk: "\<forall>k. (\<forall>a\<in>set pre''. is_option a \<longrightarrow> option_key Q a \<noteq> k) \<longrightarrow>
                  values_tbl P1 k = values_tbl Q k"
        by blast
      have vk': "values_tbl P1 k = values_tbl P k"
        if c: "\<forall>a\<in>set pre. is_option a \<longrightarrow> option_key P a \<noteq> k" for k
      proof -
        from c have "\<forall>a\<in>set pre''. is_option a \<longrightarrow> option_key Q a \<noteq> k"
          by (simp add: Cons p' option_key_same_keys[OF skQ])
        with vk have "values_tbl P1 k = values_tbl Q k" by simp
        moreover from c opt have "arg \<noteq> k" by (simp add: Cons arg_def)
        ultimately show ?thesis by (simp add: Q_def)
      qed
      have all: "\<forall>rest. scan_args (pre @ rest) P ex = scan_args rest P1 ex1"
        using step r by simp
      show ?thesis
        apply (rule exI[of _ P1], rule exI[of _ ex1])
        using all same_keys_trans[OF skQ sk] vk' by simp
    next
      case False
      with arg_def obtain P' ex' where
        step: "\<forall>r. scan_args (a # r) P ex = scan_args r P' ex'"
        and skP: "same_keys P P'" and vP: "values_tbl P' = values_tbl P"
        using scan_args_skip[of a P ex] by blast
      from less.prems Cons False arg_def have re: "reaches_end P pre'" by auto
      then have reP: "reaches_end P' pre'" by (simp add: reaches_end_same_keys[OF skP])
      have "length pre' < length pre" by (simp add: Cons)
      from less.hyps[OF this reP, of ex'] obtain P1 ex1 where
        r: "\<forall>rest. scan_args (pre' @ rest) P' ex' = scan_args rest P1 ex1"
        and sk: "same_keys P' P1"
        and vk: "\<forall>k. (\<forall>a\<in>set pre'. is_option a \<longrightarrow> option_key P' a \<noteq> k) \<longrightarrow>
                  values_tbl P1 k = values_tbl P' k"
        by blast
      have vk': "values_tbl P1 k = values_tbl P k"
        if c: "\<forall>a\<in>set pre. is_option a \<longrightarrow> option_key P a \<noteq> k" for k
      proof -
        from c have "\<forall>a\<in>set pre'. is_option a \<longrightarrow> option_key P' a \<noteq> k"
          by (simp add: Cons option_key_same_keys[OF skP])
        with vk vP show ?thesis by simp
      qed
      have all: "\<forall>rest. scan_args (pre @ rest) P ex = scan_args rest P1 ex1"
        using step r by (simp add: Cons del: scan_args.simps)
      show ?thesis
        apply (rule exI[of _ P1], rule exI[of _ ex1])
        using all same_keys_trans[OF skP sk] vk' by simp
    qed
  qed
qed

lemma same_keys_slots:
  "same_keys P Q \<Longrightarrow> values_tbl P k = Some w \<Longrightarrow> keys_found P k = Some b \<Longrightarrow>
     (\<exists>w'. values_tbl Q k = Some w') \<and> (\<exists>b'. keys_found Q k = Some b')"
proof -
  assume sk: "same_keys P Q" and w: "values_tbl P k = Some w" and b: "keys_found P k = Some b"
  from sk have "dom (values_tbl Q) = dom (values_tbl P)" "dom (keys_found Q) = dom (keys_found P)"
    by (simp_all add: same_keys_def)
  moreover from w b have "k \<in> dom (values_tbl P)" "k \<in> dom (keys_found P)" by auto
  ultimately have "k \<in> dom (values_tbl Q)" "k \<in> dom (keys_found Q)" by simp_all
  then show ?thesis by auto
qed

text \<open>
  Claim C8, as the code has it. Let \<open>tok\<close> be an option token that resolves to a key
  \<open>k\<close> with a value slot, and let the scan reach it: the arguments \<open>pre\<close> before it
  do not end in a known option that takes a value, which would take \<open>tok\<close> as its
  value. When an argument \<open>v\<close> follows \<open>tok\<close>, every spelling of \<open>k\<close> is found after
  \<open>parse\<close>, and \<open>v\<close> is its value, verbatim, unless a later argument is an option
  token for the same key. When \<open>tok\<close> is the last argument, every spelling of \<open>k\<close>
  is found, and the value is what the slot held before, unless an earlier
  argument is an option token for the same key; before the first \<open>parse\<close> of an
  object that is the empty string.
\<close>

theorem option_value_consumed:
  assumes r: "reachable P"
    and pre: "reaches_end P pre"
    and tok: "is_option tok" and k: "option_key P tok = k" and w: "values_tbl P k = Some w"
  shows "(\<exists>P1. parse P (prog # pre @ tok # v # post) = Inr P1 \<and>
            (\<forall>t. translate P t = k \<longrightarrow> found P1 t) \<and>
            ((\<forall>a\<in>set post. is_option a \<longrightarrow> option_key P a \<noteq> k) \<longrightarrow>
               (\<forall>t. translate P t = k \<longrightarrow> get_value P1 t = Inr v))) \<and>
         (\<exists>P2. parse P (prog # pre @ [tok]) = Inr P2 \<and>
            (\<forall>t. translate P t = k \<longrightarrow> found P2 t) \<and>
            ((\<forall>a\<in>set pre. is_option a \<longrightarrow> option_key P a \<noteq> k) \<longrightarrow>
               (\<forall>t. translate P t = k \<longrightarrow> get_value P2 t = Inr w))) \<and>
         (built P \<longrightarrow> w = [])"
proof -
  from r have inv: "parser_inv P" by (rule reachable_inv)
  with w obtain b where b: "keys_found P k = Some b" by (auto simp: parser_inv_def)
  from scan_args_prefix[OF pre, of "[]"] obtain Pa exa where
    all: "\<forall>rest. scan_args (pre @ rest) P [] = scan_args rest Pa exa"
    and ska: "same_keys P Pa"
    and vka: "\<forall>k. (\<forall>a\<in>set pre. is_option a \<longrightarrow> option_key P a \<noteq> k) \<longrightarrow>
                values_tbl Pa k = values_tbl P k"
    by blast
  from same_keys_slots[OF ska w b] obtain wa ba where
    wa: "values_tbl Pa k = Some wa" and ba: "keys_found Pa k = Some ba" by blast
  have ka: "option_key Pa tok = k" using k by (simp add: option_key_same_keys[OF ska])
  have first: "\<exists>P1. parse P (prog # pre @ tok # v # post) = Inr P1 \<and>
            (\<forall>t. translate P t = k \<longrightarrow> found P1 t) \<and>
            ((\<forall>a\<in>set post. is_option a \<longrightarrow> option_key P a \<noteq> k) \<longrightarrow>
               (\<forall>t. translate P t = k \<longrightarrow> get_value P1 t = Inr v))"
  proof -
    define Q where "Q = Pa\<lparr>keys_found := (keys_found Pa)(k \<mapsto> True),
                            values_tbl := (values_tbl Pa)(k \<mapsto> v)\<rparr>"
    have "same_keys Pa Q"
      unfolding Q_def
      using same_keys_trans[OF same_keys_found_upd[OF ba, of True]
              same_keys_values_upd[of "Pa\<lparr>keys_found := (keys_found Pa)(k \<mapsto> True)\<rparr>" k wa v]] wa
      by simp
    with ska have skQ: "same_keys P Q" by (rule same_keys_trans)
    obtain P3 ex3 where s3: "scan_args post Q exa = (P3, ex3)" by fastforce
    have "scan_args (pre @ tok # v # post) P [] = scan_args (tok # v # post) Pa exa"
      using all by blast
    also have "\<dots> = scan_args post Q exa"
      unfolding Q_def by (rule scan_args_option_value[OF tok ka ba wa])
    finally have sc: "scan_args (drop 1 (prog # pre @ tok # v # post)) P [] = (P3, ex3)"
      using s3 by simp
    have f3: "keys_found P3 k = Some True"
      using scan_args_found_mono[of Q k post exa] s3 by (simp add: Q_def)
    from parse_after_scan[OF inv sc f3] obtain P1 where
      p: "parse P (prog # pre @ tok # v # post) = Inr P1"
      and kt: "keys_trans P1 = keys_trans P" and f1: "keys_found P1 k = Some True"
      and v1: "values_tbl P1 k = values_tbl P3 k" by blast
    have fnd: "\<forall>t. translate P t = k \<longrightarrow> found P1 t"
      using kt f1 by (simp add: found_def translate_def)
    have val: "\<forall>t. translate P t = k \<longrightarrow> get_value P1 t = Inr v"
      if c: "\<forall>a\<in>set post. is_option a \<longrightarrow> option_key P a \<noteq> k"
    proof -
      from c have "\<forall>a\<in>set post. is_option a \<longrightarrow> option_key Q a \<noteq> k"
        by (simp add: option_key_same_keys[OF skQ])
      from scan_args_value_kept[OF this, of exa] s3
      have "values_tbl P3 k = Some v" by (simp add: Q_def)
      with v1 have "values_tbl P1 k = Some v" by simp
      with kt f1 show ?thesis using found_get_value_slot by blast
    qed
    from p fnd val show ?thesis by blast
  qed
  have last: "\<exists>P2. parse P (prog # pre @ [tok]) = Inr P2 \<and>
            (\<forall>t. translate P t = k \<longrightarrow> found P2 t) \<and>
            ((\<forall>a\<in>set pre. is_option a \<longrightarrow> option_key P a \<noteq> k) \<longrightarrow>
               (\<forall>t. translate P t = k \<longrightarrow> get_value P2 t = Inr w))"
  proof -
    define Q where "Q = Pa\<lparr>keys_found := (keys_found Pa)(k \<mapsto> True)\<rparr>"
    have "scan_args (pre @ [tok]) P [] = scan_args [tok] Pa exa" using all by blast
    also have "\<dots> = (Q, exa)"
      unfolding Q_def by (rule scan_args_option_last[OF tok ka ba])
    finally have sc: "scan_args (drop 1 (prog # pre @ [tok])) P [] = (Q, exa)" by simp
    have fQ: "keys_found Q k = Some True" by (simp add: Q_def)
    from parse_after_scan[OF inv sc fQ] obtain P2 where
      p: "parse P (prog # pre @ [tok]) = Inr P2"
      and kt: "keys_trans P2 = keys_trans P" and f2: "keys_found P2 k = Some True"
      and v2: "values_tbl P2 k = values_tbl Q k" by blast
    have fnd: "\<forall>t. translate P t = k \<longrightarrow> found P2 t"
      using kt f2 by (simp add: found_def translate_def)
    have val: "\<forall>t. translate P t = k \<longrightarrow> get_value P2 t = Inr w"
      if c: "\<forall>a\<in>set pre. is_option a \<longrightarrow> option_key P a \<noteq> k"
    proof -
      from vka c have "values_tbl Pa k = values_tbl P k" by blast
      with v2 w have "values_tbl P2 k = Some w" by (simp add: Q_def)
      with kt f2 show ?thesis using found_get_value_slot by blast
    qed
    from p fnd val show ?thesis by blast
  qed
  have "built P \<longrightarrow> w = []" using built_values_empty w by blast
  with first last show ?thesis by blast
qed

theorem option_value_consumed_witness:
  "reachable the_main_parser \<and> reaches_end the_main_parser [''out'', ''-q''] \<and>
   is_option ''--year'' \<and>
   option_key the_main_parser ''--year'' = ''y'' \<and> values_tbl the_main_parser ''y'' = Some [] \<and>
   translate the_main_parser ''year'' = ''y'' \<and>
   found_after the_main_parser [''prog'', ''out'', ''-q'', ''--year'', ''2024'', ''-?''] ''year''
     = Inr True \<and>
   value_after the_main_parser [''prog'', ''out'', ''-q'', ''--year'', ''2024'', ''-?''] ''year''
     = Inr ''2024'' \<and>
   found_after the_main_parser [''prog'', ''out'', ''-q'', ''--year''] ''year'' = Inr True \<and>
   value_after the_main_parser [''prog'', ''out'', ''-q'', ''--year''] ''year'' = Inr []"
proof -
  have r: "reachable the_main_parser" by (rule the_main_parser_reachable)
  have pre: "reaches_end the_main_parser [''out'', ''-q'']"
    by (simp add: is_option_def option_key_def translate_def main_parser_unfold)
  have tok: "is_option ''--year''" by (simp add: is_option_def)
  have k: "option_key the_main_parser ''--year'' = ''y''"
    by (simp add: option_key_def translate_def main_parser_unfold)
  have w: "values_tbl the_main_parser ''y'' = Some []"
    by (simp add: main_parser_unfold)
  have t: "translate the_main_parser ''year'' = ''y''"
    by (simp add: translate_def main_parser_unfold)
  have post: "\<forall>a\<in>set [''-?'']. is_option a \<longrightarrow> option_key the_main_parser a \<noteq> ''y''"
    by (simp add: option_key_def translate_def main_parser_unfold)
  have prek: "\<forall>a\<in>set [''out'', ''-q'']. is_option a \<longrightarrow> option_key the_main_parser a \<noteq> ''y''"
    by (simp add: option_key_def translate_def main_parser_unfold)
  from option_value_consumed[OF r pre tok k w, of "''prog''" "''2024''" "[''-?'']"] post prek t
  obtain P1 P2 where
    "parse the_main_parser (''prog'' # [''out'', ''-q''] @ ''--year'' # ''2024'' # [''-?'']) = Inr P1"
    "found P1 ''year''" "get_value P1 ''year'' = Inr ''2024''"
    "parse the_main_parser (''prog'' # [''out'', ''-q''] @ [''--year'']) = Inr P2"
    "found P2 ''year''" "get_value P2 ''year'' = Inr []"
    by blast
  then show ?thesis using r pre tok k w t
    by (simp add: found_after_def value_after_def)
qed

text \<open>
  The claim as stated fails in three ways on the parser of \<open>main\<close>. In
  \<open>-p --year -q\<close> the token \<open>--year\<close> is a known option that takes a value and is
  not the last argument, but it is consumed as the value of \<open>-p\<close>: \<open>year\<close> is not
  found. In \<open>-y 2020 -y 2021\<close> the value of \<open>y\<close> is not the argument after the
  first \<open>-y\<close>. In \<open>-y 2020 -y\<close> the last argument is found and its value is not
  empty.
\<close>

theorem option_value_counterexample:
  "is_option ''--year'' \<and> option_key the_main_parser ''--year'' = ''y'' \<and>
   values_tbl the_main_parser ''y'' = Some [] \<and>
   found_after the_main_parser [''prog'', ''-p'', ''--year'', ''-q''] ''year'' = Inr False \<and>
   value_after the_main_parser [''prog'', ''-p'', ''--year'', ''-q''] ''year'' = Inr [] \<and>
   value_after the_main_parser [''prog'', ''-p'', ''--year'', ''-q''] ''p'' = Inr ''--year'' \<and>
   value_after the_main_parser [''prog'', ''-y'', ''2020'', ''-y'', ''2021''] ''y'' = Inr ''2021'' \<and>
   found_after the_main_parser [''prog'', ''-y'', ''2020'', ''-y''] ''y'' = Inr True \<and>
   value_after the_main_parser [''prog'', ''-y'', ''2020'', ''-y''] ''y'' = Inr ''2020''"
  by (simp add: parser_eval main_parser_unfold)

section \<open>Positional arguments\<close>

text \<open>A key that is met a second time in the positional order is passed over:
  the second loop of \<open>parse\<close> runs as on the order without repetitions.\<close>

lemma set_dedup: "set (dedup ks) = set ks"
  by (induction ks rule: dedup.induct) auto

lemma distinct_dedup: "distinct (dedup ks)"
  by (induction ks rule: dedup.induct) (simp_all add: set_dedup)

lemma dedup_distinct: "distinct ks \<Longrightarrow> dedup ks = ks"
  by (induction ks) simp_all

lemma backfill_removeAll:
  "\<not> assignable P it \<Longrightarrow> keys_found P it \<noteq> None \<Longrightarrow>
     backfill (removeAll it ks) P ex = backfill ks P ex"
proof (induction ks arbitrary: P ex)
  case Nil
  then show ?case by simp
next
  case (Cons k ks)
  show ?case
  proof (cases ex)
    case Nil
    then show ?thesis by (cases "removeAll it (k # ks)") simp_all
  next
    case ex: (Cons e ex')
    show ?thesis
    proof (cases "k = it")
      case True
      from Cons.prems obtain f where f: "keys_found P it = Some f" by auto
      with Cons.prems(1) have na: "\<not> (\<not> f \<and> values_tbl P it \<noteq> None)"
        by (auto simp: assignable_def)
      have "backfill (k # ks) P ex = backfill ks P ex"
        using True f na ex by auto
      with Cons.IH[OF Cons.prems] True show ?thesis by simp
    next
      case ne: False
      show ?thesis
      proof (cases "keys_found P k")
        case None
        with ne ex show ?thesis by simp
      next
        case (Some f)
        show ?thesis
        proof (cases "\<not> f \<and> values_tbl P k \<noteq> None")
          case True
          define P1 where "P1 = P\<lparr>values_tbl := (values_tbl P)(k \<mapsto> e),
                                   keys_found := (keys_found P)(k \<mapsto> True)\<rparr>"
          have a: "\<not> assignable P1 it" using Cons.prems(1) ne
            by (simp add: assignable_def P1_def)
          have b: "keys_found P1 it \<noteq> None" using Cons.prems(2) ne by (simp add: P1_def)
          have l: "backfill (k # ks) P ex = backfill ks P1 ex'"
            using True Some ex by (simp add: P1_def)
          have r: "backfill (k # removeAll it ks) P ex = backfill (removeAll it ks) P1 ex'"
            using True Some ex by (simp add: P1_def)
          from l r Cons.IH[OF a b, of ex'] ne show ?thesis by simp
        next
          case False
          have l: "backfill (k # ks) P ex = backfill ks P ex"
            using False Some ex by auto
          have r: "backfill (k # removeAll it ks) P ex = backfill (removeAll it ks) P ex"
            using False Some ex by auto
          from l r Cons.IH[OF Cons.prems, of ex] ne show ?thesis by simp
        qed
      qed
    qed
  qed
qed

lemma backfill_dedup: "backfill (dedup ks) P ex = backfill ks P ex"
proof (induction ks arbitrary: P ex rule: dedup.induct)
  case 1
  then show ?case by simp
next
  case (2 k ks)
  show ?case
  proof (cases ex)
    case Nil
    then show ?thesis by simp
  next
    case ex: (Cons e ex')
    show ?thesis
    proof (cases "keys_found P k")
      case None
      with ex show ?thesis by simp
    next
      case (Some f)
      show ?thesis
      proof (cases "\<not> f \<and> values_tbl P k \<noteq> None")
        case True
        define P1 where "P1 = P\<lparr>values_tbl := (values_tbl P)(k \<mapsto> e),
                                 keys_found := (keys_found P)(k \<mapsto> True)\<rparr>"
        have a: "\<not> assignable P1 k" by (simp add: assignable_def P1_def)
        have b: "keys_found P1 k \<noteq> None" by (simp add: P1_def)
        have "backfill (dedup (k # ks)) P ex = backfill (dedup (removeAll k ks)) P1 ex'"
          using True Some ex by (simp add: P1_def)
        also have "\<dots> = backfill (removeAll k ks) P1 ex'" by (rule "2.IH")
        also have "\<dots> = backfill ks P1 ex'" using a b by (rule backfill_removeAll)
        also have "\<dots> = backfill (k # ks) P ex"
          using True Some ex by (simp add: P1_def)
        finally show ?thesis .
      next
        case False
        have a: "\<not> assignable P k" using False Some by (auto simp: assignable_def)
        have b: "keys_found P k \<noteq> None" using Some by simp
        have "backfill (dedup (k # ks)) P ex = backfill (dedup (removeAll k ks)) P ex"
          using False Some ex by auto
        also have "\<dots> = backfill (removeAll k ks) P ex" by (rule "2.IH")
        also have "\<dots> = backfill ks P ex" using a b by (rule backfill_removeAll)
        also have "\<dots> = backfill (k # ks) P ex"
          using False Some ex by auto
        finally show ?thesis .
      qed
    qed
  qed
qed

lemma backfill_assigns:
  "distinct ks \<Longrightarrow> set ks \<subseteq> dom (keys_found P) \<Longrightarrow>
   \<exists>P'. backfill ks P ex = Inr P' \<and>
     (\<forall>(k, e) \<in> set (zip (filter (assignable P) ks) ex).
        keys_found P' k = Some True \<and> values_tbl P' k = Some e) \<and>
     (\<forall>k. k \<notin> set (take (length ex) (filter (assignable P) ks)) \<longrightarrow>
        keys_found P' k = keys_found P k \<and> values_tbl P' k = values_tbl P k)"
proof (induction ks arbitrary: P ex)
  case Nil
  then show ?case by simp
next
  case (Cons it ks)
  show ?case
  proof (cases ex)
    case Nil
    then show ?thesis by simp
  next
    case ex: (Cons e ex')
    from Cons.prems obtain f where f: "keys_found P it = Some f" by auto
    from Cons.prems have d: "distinct ks" and ni: "it \<notin> set ks" by simp_all
    show ?thesis
    proof (cases "assignable P it")
      case True
      define P1 where "P1 = P\<lparr>values_tbl := (values_tbl P)(it \<mapsto> e),
                               keys_found := (keys_found P)(it \<mapsto> True)\<rparr>"
      have same: "filter (assignable P1) ks = filter (assignable P) ks"
        using ni by (intro filter_cong) (auto simp: assignable_def P1_def)
      have sub: "set ks \<subseteq> dom (keys_found P1)" using Cons.prems by (auto simp: P1_def)
      from Cons.IH[OF d sub, of ex'] same obtain P' where
        b: "backfill ks P1 ex' = Inr P'"
        and z: "\<forall>(k, e) \<in> set (zip (filter (assignable P) ks) ex').
                  keys_found P' k = Some True \<and> values_tbl P' k = Some e"
        and u: "\<forall>k. k \<notin> set (take (length ex') (filter (assignable P) ks)) \<longrightarrow>
                  keys_found P' k = keys_found P1 k \<and> values_tbl P' k = values_tbl P1 k"
        by auto
      have "it \<notin> set (take (length ex') (filter (assignable P) ks))"
        using ni by (auto dest: in_set_takeD)
      with u have it: "keys_found P' it = Some True \<and> values_tbl P' it = Some e"
        by (simp add: P1_def)
      have bf: "backfill (it # ks) P ex = Inr P'"
        using True f b ex by (simp add: assignable_def P1_def)
      have u': "\<forall>k. k \<notin> set (take (length ex) (filter (assignable P) (it # ks))) \<longrightarrow>
                  keys_found P' k = keys_found P k \<and> values_tbl P' k = values_tbl P k"
        using u True ex by (auto simp: P1_def)
      have z': "\<forall>(k, e) \<in> set (zip (filter (assignable P) (it # ks)) ex).
                  keys_found P' k = Some True \<and> values_tbl P' k = Some e"
        using z it True ex by auto
      from bf z' u' show ?thesis by blast
    next
      case False
      from Cons.prems have sub: "set ks \<subseteq> dom (keys_found P)" by simp
      from Cons.IH[OF d sub, of ex] obtain P' where
        b: "backfill ks P ex = Inr P'"
        and z: "\<forall>(k, e) \<in> set (zip (filter (assignable P) ks) ex).
                  keys_found P' k = Some True \<and> values_tbl P' k = Some e"
        and u: "\<forall>k. k \<notin> set (take (length ex) (filter (assignable P) ks)) \<longrightarrow>
                  keys_found P' k = keys_found P k \<and> values_tbl P' k = values_tbl P k"
        by auto
      have bf: "backfill (it # ks) P ex = Inr P'"
        using False f b ex by (auto simp: assignable_def)
      from bf z u False show ?thesis by simp
    qed
  qed
qed

lemma scan_args_bare:
  "\<forall>a\<in>set toks. \<not> is_option a \<Longrightarrow> scan_args toks P ex = (P, ex @ map strip_quotes toks)"
  using scan_args_bare_prefix[of toks "[]" P ex] by simp

text \<open>
  Claim C9, as the code has it. For every object of the class and every argument
  vector, let the first loop leave the object \<open>P1\<close> and the queue \<open>extras\<close>; the
  keys to fill are those of the positional order, each at its first place, that
  are not found in \<open>P1\<close> and have a value slot. \<open>parse\<close> returns, the \<open>i\<close>-th key to
  fill gets the \<open>i\<close>-th extra as its value and is found, for as long as there are
  extras; the keys to fill beyond that stay unfound; and every other key is as
  the first loop left it. What \<open>found\<close> and \<open>get_value\<close> return follows for every
  token that resolves to the key, which the key itself does unless it is also
  the long key of another pair. With no option token among the arguments the
  extras are the arguments themselves, in order, each without a double quote at
  its start and at its end. So for three distinct positional keys \<open>k1\<close>, \<open>k2\<close>,
  \<open>k3\<close>, not found yet and with value slots, and three bare arguments, the keys
  are found with the first, second and third argument, quotes stripped, as
  their values.
\<close>

theorem positional_backfill_order:
  assumes r: "reachable P"
  shows "(\<forall>argv P1 extras. scan_args (drop 1 argv) P [] = (P1, extras) \<longrightarrow>
            (\<exists>P'. parse P argv = Inr P' \<and>
               (\<forall>(k, e) \<in> set (zip (filter (assignable P1) (dedup (key_order P))) extras).
                  keys_found P' k = Some True \<and> values_tbl P' k = Some e \<and>
                  (\<forall>t. translate P t = k \<longrightarrow> found P' t \<and> get_value P' t = Inr e)) \<and>
               (\<forall>k \<in> set (drop (length extras) (filter (assignable P1) (dedup (key_order P)))).
                  keys_found P' k = Some False \<and>
                  (\<forall>t. translate P t = k \<longrightarrow> \<not> found P' t)) \<and>
               (\<forall>k. k \<notin> set (filter (assignable P1) (dedup (key_order P))) \<longrightarrow>
                  keys_found P' k = keys_found P1 k \<and> values_tbl P' k = values_tbl P1 k))) \<and>
         (\<forall>toks. (\<forall>a\<in>set toks. \<not> is_option a) \<longrightarrow>
            scan_args toks P [] = (P, map strip_quotes toks)) \<and>
         (\<forall>k1 k2 k3 t1 t2 t3 prog.
            key_order P = [k1, k2, k3] \<and> distinct [k1, k2, k3] \<and>
            assignable P k1 \<and> assignable P k2 \<and> assignable P k3 \<and>
            \<not> is_option t1 \<and> \<not> is_option t2 \<and> \<not> is_option t3 \<longrightarrow>
            (\<exists>P'. parse P [prog, t1, t2, t3] = Inr P' \<and>
               (\<forall>t. translate P t = k1 \<longrightarrow> found P' t \<and> get_value P' t = Inr (strip_quotes t1)) \<and>
               (\<forall>t. translate P t = k2 \<longrightarrow> found P' t \<and> get_value P' t = Inr (strip_quotes t2)) \<and>
               (\<forall>t. translate P t = k3 \<longrightarrow> found P' t \<and> get_value P' t = Inr (strip_quotes t3))))"
proof -
  from r have inv: "parser_inv P" by (rule reachable_inv)
  have general: "\<exists>P'. parse P argv = Inr P' \<and>
               (\<forall>(k, e) \<in> set (zip (filter (assignable P1) (dedup (key_order P))) extras).
                  keys_found P' k = Some True \<and> values_tbl P' k = Some e \<and>
                  (\<forall>t. translate P t = k \<longrightarrow> found P' t \<and> get_value P' t = Inr e)) \<and>
               (\<forall>k \<in> set (drop (length extras) (filter (assignable P1) (dedup (key_order P)))).
                  keys_found P' k = Some False \<and>
                  (\<forall>t. translate P t = k \<longrightarrow> \<not> found P' t)) \<and>
               (\<forall>k. k \<notin> set (filter (assignable P1) (dedup (key_order P))) \<longrightarrow>
                  keys_found P' k = keys_found P1 k \<and> values_tbl P' k = values_tbl P1 k)"
    if sc: "scan_args (drop 1 argv) P [] = (P1, extras)" for argv P1 extras
  proof -
    let ?F = "filter (assignable P1) (dedup (key_order P))"
    have sk: "same_keys P P1" using scan_args_same_keys[of P "drop 1 argv" "[]"] sc by simp
    then have ko: "key_order P1 = key_order P" by (simp add: same_keys_def)
    from inv sk have "parser_inv P1" by (rule parser_inv_same_keys)
    then have sub: "set (dedup (key_order P)) \<subseteq> dom (keys_found P1)"
      by (simp add: parser_inv_def ko set_dedup)
    from backfill_assigns[OF distinct_dedup sub, of extras] obtain P' where
      bf: "backfill (dedup (key_order P)) P1 extras = Inr P'"
      and z: "\<forall>(k, e) \<in> set (zip ?F extras). keys_found P' k = Some True \<and> values_tbl P' k = Some e"
      and u: "\<forall>k. k \<notin> set (take (length extras) ?F) \<longrightarrow>
                keys_found P' k = keys_found P1 k \<and> values_tbl P' k = values_tbl P1 k"
      by blast
    have p: "parse P argv = Inr P'" using sc bf ko by (simp add: parse_def backfill_dedup)
    from parse_same_keys[OF p] have kt: "keys_trans P' = keys_trans P" by (simp add: same_keys_def)
    have dF: "distinct ?F" using distinct_dedup by (rule distinct_filter)
    have assigned: "keys_found P' k = Some True \<and> values_tbl P' k = Some e \<and>
        (\<forall>t. translate P t = k \<longrightarrow> found P' t \<and> get_value P' t = Inr e)"
      if ke: "(k, e) \<in> set (zip ?F extras)" for k e
    proof -
      from z ke have s: "keys_found P' k = Some True" "values_tbl P' k = Some e" by auto
      with kt have "\<forall>t. translate P t = k \<longrightarrow> found P' t \<and> get_value P' t = Inr e"
        using found_get_value_slot by blast
      with s show ?thesis by simp
    qed
    have beyond: "keys_found P' k = Some False \<and> (\<forall>t. translate P t = k \<longrightarrow> \<not> found P' t)"
      if k: "k \<in> set (drop (length extras) ?F)" for k
    proof -
      from dF have "distinct (take (length extras) ?F @ drop (length extras) ?F)" by simp
      with k have "k \<notin> set (take (length extras) ?F)" by (auto simp del: append_take_drop_id)
      with u have "keys_found P' k = keys_found P1 k" by simp
      moreover from k have "k \<in> set ?F" by (rule in_set_dropD)
      then have "keys_found P1 k = Some False" by (simp add: assignable_def)
      ultimately have f: "keys_found P' k = Some False" by simp
      then have "\<forall>t. translate P t = k \<longrightarrow> \<not> found P' t"
        using kt by (simp add: found_def translate_def)
      with f show ?thesis by simp
    qed
    have other: "keys_found P' k = keys_found P1 k \<and> values_tbl P' k = values_tbl P1 k"
      if "k \<notin> set ?F" for k
    proof -
      from that have "k \<notin> set (take (length extras) ?F)" by (blast dest: in_set_takeD)
      with u show ?thesis by blast
    qed
    have a: "\<forall>(k, e) \<in> set (zip ?F extras).
        keys_found P' k = Some True \<and> values_tbl P' k = Some e \<and>
        (\<forall>t. translate P t = k \<longrightarrow> found P' t \<and> get_value P' t = Inr e)"
      using assigned by blast
    have b: "\<forall>k \<in> set (drop (length extras) ?F).
        keys_found P' k = Some False \<and> (\<forall>t. translate P t = k \<longrightarrow> \<not> found P' t)"
      using beyond by blast
    have c: "\<forall>k. k \<notin> set ?F \<longrightarrow>
        keys_found P' k = keys_found P1 k \<and> values_tbl P' k = values_tbl P1 k"
      using other by blast
    from p a b c show ?thesis by blast
  qed
  have bare: "scan_args toks P [] = (P, map strip_quotes toks)"
    if "\<forall>a\<in>set toks. \<not> is_option a" for toks
    using scan_args_bare[OF that, of P "[]"] by simp
  have three: "\<exists>P'. parse P [prog, t1, t2, t3] = Inr P' \<and>
               (\<forall>t. translate P t = k1 \<longrightarrow> found P' t \<and> get_value P' t = Inr (strip_quotes t1)) \<and>
               (\<forall>t. translate P t = k2 \<longrightarrow> found P' t \<and> get_value P' t = Inr (strip_quotes t2)) \<and>
               (\<forall>t. translate P t = k3 \<longrightarrow> found P' t \<and> get_value P' t = Inr (strip_quotes t3))"
    if h: "key_order P = [k1, k2, k3] \<and> distinct [k1, k2, k3] \<and>
            assignable P k1 \<and> assignable P k2 \<and> assignable P k3 \<and>
            \<not> is_option t1 \<and> \<not> is_option t2 \<and> \<not> is_option t3"
    for k1 k2 k3 t1 t2 t3 prog
  proof -
    from h have ko: "key_order P = [k1, k2, k3]" and d: "distinct [k1, k2, k3]"
      and as: "assignable P k1" "assignable P k2" "assignable P k3"
      and bt: "\<forall>a\<in>set [t1, t2, t3]. \<not> is_option a" by simp_all
    have sc: "scan_args (drop 1 [prog, t1, t2, t3]) P [] =
        (P, [strip_quotes t1, strip_quotes t2, strip_quotes t3])"
      using bare[OF bt] by simp
    have F: "filter (assignable P) (dedup (key_order P)) = [k1, k2, k3]"
      using as dedup_distinct[OF d] by (simp add: ko)
    from general[OF sc] obtain P' where
      p: "parse P [prog, t1, t2, t3] = Inr P'"
      and z: "\<forall>(k, e) \<in> set (zip [k1, k2, k3] [strip_quotes t1, strip_quotes t2, strip_quotes t3]).
                  keys_found P' k = Some True \<and> values_tbl P' k = Some e \<and>
                  (\<forall>t. translate P t = k \<longrightarrow> found P' t \<and> get_value P' t = Inr e)"
      unfolding F by blast
    from z have
      "\<forall>t. translate P t = k1 \<longrightarrow> found P' t \<and> get_value P' t = Inr (strip_quotes t1)"
      "\<forall>t. translate P t = k2 \<longrightarrow> found P' t \<and> get_value P' t = Inr (strip_quotes t2)"
      "\<forall>t. translate P t = k3 \<longrightarrow> found P' t \<and> get_value P' t = Inr (strip_quotes t3)"
      by simp_all
    with p show ?thesis by blast
  qed
  from general bare three show ?thesis by blast
qed

theorem positional_backfill_order_witness:
  "reachable the_main_parser \<and>
   scan_args (drop 1 [''prog'', ''out'', ''-q'', ''2027'', ''a.zip'']) the_main_parser [] =
     (the_main_parser\<lparr>keys_found := (keys_found the_main_parser)(''q'' \<mapsto> True)\<rparr>,
      [''out'', ''2027'', ''a.zip'']) \<and>
   translate the_main_parser ''path'' = ''p'' \<and> translate the_main_parser ''y'' = ''y'' \<and>
   translate the_main_parser ''zip-file'' = ''f'' \<and> translate the_main_parser ''i'' = ''i'' \<and>
   found_after the_main_parser [''prog'', ''out'', ''-q'', ''2027'', ''a.zip''] ''path'' = Inr True \<and>
   value_after the_main_parser [''prog'', ''out'', ''-q'', ''2027'', ''a.zip''] ''path'' = Inr ''out'' \<and>
   value_after the_main_parser [''prog'', ''out'', ''-q'', ''2027'', ''a.zip''] ''y'' = Inr ''2027'' \<and>
   value_after the_main_parser [''prog'', ''out'', ''-q'', ''2027'', ''a.zip''] ''zip-file''
     = Inr ''a.zip'' \<and>
   found_after the_main_parser [''prog'', ''out'', ''-q'', ''2027'', ''a.zip''] ''i'' = Inr False \<and>
   reachable reg_three \<and> key_order reg_three = [''src'', ''dst'', ''tag''] \<and>
   assignable reg_three ''src'' \<and> assignable reg_three ''dst'' \<and> assignable reg_three ''tag'' \<and>
   found_after reg_three [''prog'', ''a'', ''b'', ''c''] ''tag'' = Inr True \<and>
   value_after reg_three [''prog'', ''a'', ''b'', ''c''] ''src'' = Inr ''a'' \<and>
   value_after reg_three [''prog'', ''a'', ''b'', ''c''] ''dst'' = Inr ''b'' \<and>
   value_after reg_three [''prog'', ''a'', ''b'', ''c''] ''tag'' = Inr ''c''"
proof -
  define P1 where
    "P1 = the_main_parser\<lparr>keys_found := (keys_found the_main_parser)(''q'' \<mapsto> True)\<rparr>"
  have r: "reachable the_main_parser" by (rule the_main_parser_reachable)
  have ko: "key_order the_main_parser =
      [''p'', ''y'', ''f'', ''i'', ''z'', ''o'', ''d'', ''n'', ''c'', ''u'']"
    by (simp add: main_parser_unfold)
  have dd: "dedup (key_order the_main_parser) =
      [''p'', ''y'', ''f'', ''i'', ''z'', ''o'', ''d'', ''n'', ''c'', ''u'']"
    unfolding ko by (rule dedup_distinct) simp
  have sc: "scan_args (drop 1 [''prog'', ''out'', ''-q'', ''2027'', ''a.zip'']) the_main_parser []
      = (P1, [''out'', ''2027'', ''a.zip''])"
    by (simp add: P1_def is_option_def option_key_def translate_def strip_quotes_def
          main_parser_unfold)
  have F: "filter (assignable P1) (dedup (key_order the_main_parser)) =
      [''p'', ''y'', ''f'', ''i'', ''z'', ''o'', ''d'', ''n'', ''c'', ''u'']"
    unfolding dd by (simp add: P1_def assignable_def main_parser_unfold)
  have t: "translate the_main_parser ''path'' = ''p''" "translate the_main_parser ''y'' = ''y''"
    "translate the_main_parser ''zip-file'' = ''f''" "translate the_main_parser ''i'' = ''i''"
    by (simp_all add: translate_def main_parser_unfold)
  from positional_backfill_order[OF r, THEN conjunct1, rule_format, OF sc] obtain P' where
    p: "parse the_main_parser [''prog'', ''out'', ''-q'', ''2027'', ''a.zip''] = Inr P'"
    and z: "\<forall>(k, e) \<in> set (zip (filter (assignable P1) (dedup (key_order the_main_parser)))
                [''out'', ''2027'', ''a.zip'']).
              keys_found P' k = Some True \<and> values_tbl P' k = Some e \<and>
              (\<forall>t. translate the_main_parser t = k \<longrightarrow> found P' t \<and> get_value P' t = Inr e)"
    and y: "\<forall>k \<in> set (drop (length [''out'', ''2027'', ''a.zip''])
                (filter (assignable P1) (dedup (key_order the_main_parser)))).
              keys_found P' k = Some False \<and>
              (\<forall>t. translate the_main_parser t = k \<longrightarrow> \<not> found P' t)"
    by blast
  from z have
    "\<forall>t. translate the_main_parser t = ''p'' \<longrightarrow> found P' t \<and> get_value P' t = Inr ''out''"
    "\<forall>t. translate the_main_parser t = ''y'' \<longrightarrow> found P' t \<and> get_value P' t = Inr ''2027''"
    "\<forall>t. translate the_main_parser t = ''f'' \<longrightarrow> found P' t \<and> get_value P' t = Inr ''a.zip''"
    unfolding F by simp_all
  with t have a: "found P' ''path''" "get_value P' ''path'' = Inr ''out''"
    "get_value P' ''y'' = Inr ''2027''" "get_value P' ''zip-file'' = Inr ''a.zip''"
    by blast+
  from y have "\<forall>t. translate the_main_parser t = ''i'' \<longrightarrow> \<not> found P' t"
    unfolding F by simp
  with t have b: "\<not> found P' ''i''" by blast
  have main: "found_after the_main_parser [''prog'', ''out'', ''-q'', ''2027'', ''a.zip''] ''path''
        = Inr True \<and>
      value_after the_main_parser [''prog'', ''out'', ''-q'', ''2027'', ''a.zip''] ''path''
        = Inr ''out'' \<and>
      value_after the_main_parser [''prog'', ''out'', ''-q'', ''2027'', ''a.zip''] ''y''
        = Inr ''2027'' \<and>
      value_after the_main_parser [''prog'', ''out'', ''-q'', ''2027'', ''a.zip''] ''zip-file''
        = Inr ''a.zip'' \<and>
      found_after the_main_parser [''prog'', ''out'', ''-q'', ''2027'', ''a.zip''] ''i'' = Inr False"
    using a b p by (simp add: found_after_def value_after_def)
  have r3: "reachable reg_three"
    by (rule r_init[of "[''src'', ''dst'', ''tag'']" "[[], [], []]"])
       (simp add: init_def reg_three_def)
  have ko3: "key_order reg_three = [''src'', ''dst'', ''tag'']"
    by (simp add: reg_three_def init_step_def empty_parser_def Let_def)
  have as3: "assignable reg_three ''src''" "assignable reg_three ''dst''"
    "assignable reg_three ''tag''"
    by (simp_all add: assignable_def reg_three_def init_step_def empty_parser_def Let_def
          map_insert_def)
  have t3: "translate reg_three ''src'' = ''src''" "translate reg_three ''dst'' = ''dst''"
    "translate reg_three ''tag'' = ''tag''"
    by (simp_all add: translate_def reg_three_def init_step_def empty_parser_def Let_def)
  have h3: "key_order reg_three = [''src'', ''dst'', ''tag''] \<and>
      distinct [''src'', ''dst'', ''tag''] \<and>
      assignable reg_three ''src'' \<and> assignable reg_three ''dst'' \<and> assignable reg_three ''tag'' \<and>
      \<not> is_option ''a'' \<and> \<not> is_option ''b'' \<and> \<not> is_option ''c''"
    using ko3 as3 by (simp add: is_option_def)
  from positional_backfill_order[OF r3, THEN conjunct2, THEN conjunct2, rule_format, OF h3,
      of "''prog''"]
  obtain P3 where
    p3: "parse reg_three [''prog'', ''a'', ''b'', ''c''] = Inr P3"
    and s1: "\<forall>t. translate reg_three t = ''src'' \<longrightarrow>
               found P3 t \<and> get_value P3 t = Inr (strip_quotes ''a'')"
    and s2: "\<forall>t. translate reg_three t = ''dst'' \<longrightarrow>
               found P3 t \<and> get_value P3 t = Inr (strip_quotes ''b'')"
    and s3: "\<forall>t. translate reg_three t = ''tag'' \<longrightarrow>
               found P3 t \<and> get_value P3 t = Inr (strip_quotes ''c'')"
    by blast
  from s1 s2 s3 t3 have "found P3 ''tag''" "get_value P3 ''src'' = Inr ''a''"
    "get_value P3 ''dst'' = Inr ''b''" "get_value P3 ''tag'' = Inr ''c''"
    by (simp_all add: strip_quotes_def)
  with p3 have three: "found_after reg_three [''prog'', ''a'', ''b'', ''c''] ''tag'' = Inr True \<and>
      value_after reg_three [''prog'', ''a'', ''b'', ''c''] ''src'' = Inr ''a'' \<and>
      value_after reg_three [''prog'', ''a'', ''b'', ''c''] ''dst'' = Inr ''b'' \<and>
      value_after reg_three [''prog'', ''a'', ''b'', ''c''] ''tag'' = Inr ''c''"
    by (simp add: found_after_def value_after_def)
  have sc': "scan_args (drop 1 [''prog'', ''out'', ''-q'', ''2027'', ''a.zip'']) the_main_parser [] =
     (the_main_parser\<lparr>keys_found := (keys_found the_main_parser)(''q'' \<mapsto> True)\<rparr>,
      [''out'', ''2027'', ''a.zip''])"
    using sc by (simp only: P1_def)
  show ?thesis
    using r sc' t main r3 ko3 as3 three by (simp only: simp_thms)
qed

text \<open>
  The claim as stated fails in three ways. With the pairs \<open>(a, b)\<close>, \<open>(b, c)\<close>,
  \<open>(d, e)\<close> the positional keys are \<open>a\<close>, \<open>b\<close>, \<open>d\<close>, and \<open>get_value\<close> of the second
  key \<open>b\<close> is the first argument, since \<open>b\<close> is read as the alias of \<open>a\<close>. With the
  short keys \<open>a\<close>, \<open>a\<close>, \<open>b\<close> the third key gets the second argument. And an
  argument in double quotes is assigned without them.
\<close>

theorem positional_backfill_counterexample:
  "ArgParser_pairs [(''a'', ''b''), (''b'', ''c''), (''d'', ''e'')] = Inr reg_chain \<and>
   key_order reg_chain = [''a'', ''b'', ''d''] \<and>
   assignable reg_chain ''a'' \<and> assignable reg_chain ''b'' \<and> assignable reg_chain ''d'' \<and>
   \<not> is_option ''1'' \<and> \<not> is_option ''2'' \<and> \<not> is_option ''3'' \<and>
   value_after reg_chain [''prog'', ''1'', ''2'', ''3''] ''b'' = Inr ''1'' \<and>
   ArgParser_short [''a'', ''a'', ''b''] = Inr reg_dup \<and>
   key_order reg_dup = [''a'', ''a'', ''b''] \<and>
   value_after reg_dup [''prog'', ''1'', ''2'', ''3''] ''a'' = Inr ''1'' \<and>
   value_after reg_dup [''prog'', ''1'', ''2'', ''3''] ''b'' = Inr ''2'' \<and>
   ArgParser_short [''src'', ''dst'', ''tag''] = Inr reg_three \<and>
   \<not> is_option ([DQ] @ ''a b'' @ [DQ]) \<and>
   value_after reg_three [''prog'', [DQ] @ ''a b'' @ [DQ], ''c'', ''d''] ''src'' = Inr ''a b''"
  by (simp add: parser_eval ArgParser_short_def ArgParser_pairs_def init_def reg_three_def
        reg_chain_def reg_dup_def init_step_def assignable_def)

end
